theory Spec2Isabelle
  imports Complex_Main
begin

section \<open>Event dispatcher (class PointerEvents, lines 146--172)\<close>

text \<open>
  A listener is a JavaScript function object; \<open>indexOf\<close> compares listeners with
  \<open>===\<close>, that is by object identity, so a listener is modelled by the number that
  identifies the object. The field \<open>this._listeners\<close> is either \<open>undefined\<close>
  (\<open>None\<close>) or an object that maps an event type to an array of listeners.
\<close>

type_synonym listener = nat

type_synonym listeners = "(string \<rightharpoonup> listener list) option"

text \<open>\<open>Array.prototype.indexOf\<close>: the index of the first occurrence, or \<open>-1\<close>.\<close>

fun indexOf :: "'a list \<Rightarrow> 'a \<Rightarrow> int" where
  "indexOf [] v = - 1"
| "indexOf (x # xs) v =
     (if x = v then 0 else (let i = indexOf xs v in if i = - 1 then - 1 else i + 1))"

text \<open>
  \<open>array.splice(index, 1)\<close>: a negative index counts from the end of the array (clamped
  at 0), an index beyond the end removes nothing.
\<close>

definition splice1 :: "'a list \<Rightarrow> int \<Rightarrow> 'a list" where
  "splice1 xs index =
     (let n = int (length xs);
          start = (if index < 0 then max (n + index) 0 else min index n)
      in take (nat start) xs @ drop (nat start + 1) xs)"

definition addEventListener :: "listeners \<Rightarrow> string \<Rightarrow> listener \<Rightarrow> listeners" where
  "addEventListener L type listener =
     (let m = (case L of None \<Rightarrow> Map.empty | Some m \<Rightarrow> m);
          arr = (case m type of None \<Rightarrow> [] | Some a \<Rightarrow> a)
      in if indexOf arr listener = - 1
         then Some (m(type \<mapsto> arr @ [listener]))
         else Some (m(type \<mapsto> arr)))"

definition hasEventListener :: "listeners \<Rightarrow> string \<Rightarrow> listener \<Rightarrow> bool" where
  "hasEventListener L type listener =
     (case L of None \<Rightarrow> False
      | Some m \<Rightarrow> (case m type of None \<Rightarrow> False | Some arr \<Rightarrow> indexOf arr listener \<noteq> - 1))"

definition removeEventListener :: "listeners \<Rightarrow> string \<Rightarrow> listener \<Rightarrow> listeners" where
  "removeEventListener L type listener =
     (case L of None \<Rightarrow> None
      | Some m \<Rightarrow>
          (case m type of None \<Rightarrow> Some m
           | Some arr \<Rightarrow>
               (let index = indexOf arr listener
                in if index \<noteq> - 1 then Some (m(type \<mapsto> splice1 arr index)) else Some m)))"

text \<open>\<open>dispose\<close> ends with \<open>delete this._listeners\<close>.\<close>

definition dispose :: "listeners \<Rightarrow> listeners" where
  "dispose L = None"

text \<open>
  A dispatched event is an object with a \<open>type\<close> field. What a listener does when it is
  called is outside the dispatcher: it is a parameter \<open>run\<close>, giving for a listener and
  an event the change the call makes to \<open>this._listeners\<close> (a listener receives the
  dispatcher as \<open>this\<close> and may add or remove listeners, or dispose) and whether the
  call returns or throws. \<open>dispatchEvent\<close> has no \<open>try\<close>: an exception thrown by a
  listener ends the loop and leaves \<open>dispatchEvent\<close>. The result of \<open>dispatchEvent\<close>
  is the outcome with the final \<open>_listeners\<close>, and the listeners the loop has called, in
  the order of the calls.
\<close>

datatype 's outcome = Returned 's | Thrown 's

record 'p event =
  ev_type :: string
  payload :: 'p

fun call_all ::
  "(listener \<Rightarrow> 'p event \<Rightarrow> listeners \<Rightarrow> listeners outcome) \<Rightarrow> listener list \<Rightarrow>
   'p event \<Rightarrow> listeners \<Rightarrow> listeners outcome \<times> listener list" where
  "call_all run [] ev L = (Returned L, [])"
| "call_all run (f # array) ev L =
     (case run f ev L of
        Thrown L1 \<Rightarrow> (Thrown L1, [f])
      | Returned L1 \<Rightarrow>
          (let (r, called) = call_all run array ev L1
           in (r, f # called)))"

definition dispatchEvent ::
  "(listener \<Rightarrow> 'p event \<Rightarrow> listeners \<Rightarrow> listeners outcome) \<Rightarrow> listeners \<Rightarrow>
   'p event \<Rightarrow> listeners outcome \<times> listener list" where
  "dispatchEvent run L ev =
     (case L of None \<Rightarrow> (Returned L, [])
      | Some m \<Rightarrow>
          (case m (ev_type ev) of None \<Rightarrow> (Returned L, [])
           | Some arr \<Rightarrow> (let array = arr in call_all run array ev L)))"

text \<open>The listeners registered for an event type, in the order of the array.\<close>

definition registered :: "listeners \<Rightarrow> string \<Rightarrow> listener list" where
  "registered L type =
     (case L of None \<Rightarrow> [] | Some m \<Rightarrow> (case m type of None \<Rightarrow> [] | Some arr \<Rightarrow> arr))"

text \<open>
  The calls a client can make on a dispatcher, and the \<open>_listeners\<close> they lead to from a
  new dispatcher (whose \<open>_listeners\<close> is \<open>undefined\<close>).
\<close>

datatype call = Add string listener | Remove string listener | Dispose

fun apply_call :: "listeners \<Rightarrow> call \<Rightarrow> listeners" where
  "apply_call L (Add t f) = addEventListener L t f"
| "apply_call L (Remove t f) = removeEventListener L t f"
| "apply_call L Dispose = dispose L"

definition after_calls :: "call list \<Rightarrow> listeners" where
  "after_calls cs = foldl apply_call None cs"

section \<open>Numbers\<close>

text \<open>
  A JavaScript number is an IEEE 754 double. The coordinates are finite doubles and are
  modelled by the real numbers they denote. The arithmetic of the code is modelled with
  its rounding: the result of an operation is the exact result rounded to the nearest
  double, ties to the even significand (\<open>fl\<close>: 53 bits of significand, gradual
  underflow below \<open>2 ^ -1022\<close>). The exponent range is taken unbounded above: overflow
  to \<open>Infinity\<close> and \<open>NaN\<close> are not modelled.
\<close>

definition pow2 :: "int \<Rightarrow> real" where
  "pow2 k = (if 0 \<le> k then 2 ^ nat k else inverse (2 ^ nat (- k)))"

definition round_even :: "real \<Rightarrow> int" where
  "round_even r =
     (let f = \<lfloor>r\<rfloor>; d = r - of_int f
      in if d < 1 / 2 then f else if 1 / 2 < d then f + 1 else if even f then f else f + 1)"

definition fl :: "real \<Rightarrow> real" where
  "fl v =
     (if v = 0 then 0
      else (let e = max \<lfloor>log 2 \<bar>v\<bar>\<rfloor> (- 1022) - 52
            in of_int (round_even (v / pow2 e)) * pow2 e))"

text \<open>The operations \<open>-\<close>, \<open>+\<close>, \<open>*\<close> and \<open>Math.sqrt\<close> on doubles.\<close>

definition fsub :: "real \<Rightarrow> real \<Rightarrow> real" where
  "fsub a b = fl (a - b)"

definition fadd :: "real \<Rightarrow> real \<Rightarrow> real" where
  "fadd a b = fl (a + b)"

definition fmul :: "real \<Rightarrow> real \<Rightarrow> real" where
  "fmul a b = fl (a * b)"

definition fsqrt :: "real \<Rightarrow> real" where
  "fsqrt a = fl (sqrt a)"

section \<open>Contacts (class Pointer, lines 175--234)\<close>

text \<open>
  The fields that hold JavaScript numbers are finite doubles, modelled by the real
  numbers they denote. A DOM element is modelled by its number and its chain of
  parent elements. A property that was never assigned reads as \<open>undefined\<close>, modelled
  by \<open>None\<close>: the modifier keys, which the constructor does not set, and \<open>movementXY\<close>,
  which only \<open>clone\<close> assigns.
\<close>

datatype element = Element nat "element option"

fun parentElement :: "element \<Rightarrow> element option" where
  "parentElement (Element n p) = p"

record Pointer =
  pointerID :: nat
  target :: element
  type :: string
  pointerType :: string
  clientX :: real
  clientY :: real
  x :: real
  y :: real
  startX :: real
  startY :: real
  movementX :: real
  movementY :: real
  distanceX :: real
  distanceY :: real
  button :: int
  buttons :: int
  altKey :: "bool option"
  ctrlKey :: "bool option"
  metaKey :: "bool option"
  shiftKey :: "bool option"
  movementXY :: "real option"

definition Pointer_new :: "nat \<Rightarrow> element \<Rightarrow> string \<Rightarrow> string \<Rightarrow> Pointer" where
  "Pointer_new pid tgt ty pty =
     \<lparr> pointerID = pid, target = tgt, type = ty, pointerType = pty,
       clientX = 0, clientY = 0, x = 0, y = 0, startX = 0, startY = 0,
       movementX = 0, movementY = 0, distanceX = 0, distanceY = 0,
       button = - 1, buttons = 0,
       altKey = None, ctrlKey = None, metaKey = None, shiftKey = None,
       movementXY = None \<rparr>"

definition clone :: "Pointer \<Rightarrow> Pointer" where
  "clone this =
     (Pointer_new (pointerID this) (target this) (type this) (pointerType this))
       \<lparr> clientX := clientX this,
         clientY := clientY this,
         x := x this,
         y := y this,
         startX := startX this,
         startY := startY this,
         movementX := movementX this,
         movementXY := movementXY this,
         distanceX := distanceX this,
         distanceY := distanceY this,
         button := button this,
         buttons := buttons this \<rparr>"

text \<open>
  \<open>Pointer.update(previous)\<close>. The assignments run in order, so \<open>distanceX\<close> is
  computed from the \<open>startX\<close> just copied from \<open>previous\<close>.
\<close>

definition Pointer_update :: "Pointer \<Rightarrow> Pointer \<Rightarrow> Pointer" where
  "Pointer_update this previous =
     (let t1 = this\<lparr> pointerID := pointerID previous \<rparr>;
          t2 = t1\<lparr> startX := startX previous \<rparr>;
          t3 = t2\<lparr> startY := startY previous \<rparr>;
          t4 = t3\<lparr> movementX := fsub (x t3) (x previous) \<rparr>;
          t5 = t4\<lparr> movementY := fsub (y t4) (y previous) \<rparr>;
          t6 = t5\<lparr> distanceX := fsub (x t5) (startX t5) \<rparr>;
          t7 = t6\<lparr> distanceY := fsub (y t6) (startY t6) \<rparr>
      in t7)"

section \<open>Nearest contact (function getClosest, lines 316--329)\<close>

text \<open>
  A contact is an object, and the code compares contacts by identity (\<open>!==\<close>,
  \<open>indexOf\<close>) and mutates them in place, so a contact is modelled by a reference into
  a store of \<open>Pointer\<close> objects. \<open>closestDist\<close> starts as \<open>Infinity\<close>, modelled by
  \<open>None\<close>; \<open>closest\<close> starts as \<open>undefined\<close>, modelled by \<open>None\<close>.
\<close>

type_synonym ref = nat

text \<open>\<open>dist < closestDist\<close>, where \<open>closestDist\<close> may be \<open>Infinity\<close>.\<close>

fun less_dist :: "real \<Rightarrow> real option \<Rightarrow> bool" where
  "less_dist d None = True"
| "less_dist d (Some closestDist) = (d < closestDist)"

fun getClosest_loop ::
  "(ref \<Rightarrow> Pointer) \<Rightarrow> ref \<Rightarrow> ref list \<Rightarrow> real option \<Rightarrow> ref option \<Rightarrow> ref option" where
  "getClosest_loop h pointer [] closestDist closest = closest"
| "getClosest_loop h pointer (p # pointers) closestDist closest =
     (let dx = fsub (x (h pointer)) (x (h p));
          dy = fsub (y (h pointer)) (y (h p));
          dist = fsqrt (fadd (fmul dx dx) (fmul dy dy))
      in if less_dist dist closestDist
         then getClosest_loop h pointer pointers (Some dist) (Some p)
         else getClosest_loop h pointer pointers closestDist closest)"

definition getClosest :: "(ref \<Rightarrow> Pointer) \<Rightarrow> ref \<Rightarrow> ref list \<Rightarrow> ref option" where
  "getClosest h pointer pointers = getClosest_loop h pointer pointers None None"

text \<open>
  The distance between two positions as \<open>getClosest\<close> computes it, and between two
  contacts of a store.
\<close>

definition dist_xy :: "real \<Rightarrow> real \<Rightarrow> real \<Rightarrow> real \<Rightarrow> real" where
  "dist_xy px py qx qy =
     (let dx = fsub px qx;
          dy = fsub py qy
      in fsqrt (fadd (fmul dx dx) (fmul dy dy)))"

definition computed_dist :: "(ref \<Rightarrow> Pointer) \<Rightarrow> ref \<Rightarrow> ref \<Rightarrow> real" where
  "computed_dist h a b = dist_xy (x (h a)) (y (h a)) (x (h b)) (y (h b))"

text \<open>The Euclidean distance between the positions of two contacts, in the real numbers.\<close>

definition euclid :: "(ref \<Rightarrow> Pointer) \<Rightarrow> ref \<Rightarrow> ref \<Rightarrow> real" where
  "euclid h a b = sqrt ((x (h a) - x (h b))\<^sup>2 + (y (h a) - y (h b))\<^sup>2)"

section \<open>Contact set (class PointerArray, lines 236--298)\<close>

text \<open>
  A raw sample is a \<open>Touch\<close> of \<open>event.touches\<close>, or the event itself when the event
  has no \<open>touches\<close> (a mouse event); \<open>e_touches\<close> is \<open>None\<close> when \<open>event.touches\<close>
  is \<open>undefined\<close>, and \<open>e_buttons\<close> is \<open>None\<close> when \<open>event.buttons\<close> is.
\<close>

record Touch =
  t_target :: "element option"
  t_clientX :: real
  t_clientY :: real

record Event =
  e_touches :: "Touch list option"
  e_target :: "element option"
  e_clientX :: real
  e_clientY :: real
  e_buttons :: "int option"
  e_altKey :: "bool option"
  e_ctrlKey :: "bool option"
  e_metaKey :: "bool option"
  e_shiftKey :: "bool option"

text \<open>The part of \<open>target.getBoundingClientRect()\<close> that \<open>update\<close> reads.\<close>

record DOMRect =
  rect_x :: real
  rect_y :: real

text \<open>
  \<open>isTouchInTarget\<close>: the loop walks from \<open>event.target\<close> up the chain of parent
  elements.
\<close>

fun isTouchInTarget_loop :: "element \<Rightarrow> element \<Rightarrow> bool" where
  "isTouchInTarget_loop (Element n parent) tgt =
     (if Element n parent = tgt then True
      else (case parent of None \<Rightarrow> False | Some e \<Rightarrow> isTouchInTarget_loop e tgt))"

definition isTouchInTarget :: "Touch \<Rightarrow> element \<Rightarrow> bool" where
  "isTouchInTarget event tgt =
     (case t_target event of None \<Rightarrow> False | Some eventTarget \<Rightarrow> isTouchInTarget_loop eventTarget tgt)"

text \<open>
  The store: the objects, and the next unused reference (\<open>new Pointer\<close> takes it).
\<close>

record heap =
  objs :: "ref \<Rightarrow> Pointer"
  fresh :: ref

text \<open>
  The contact set: \<open>items\<close> are the elements of the array itself (\<open>this[i]\<close>).
\<close>

record PointerArray =
  items :: "ref list"
  pa_target :: element
  previous :: "ref list"
  removed :: "ref list"

definition PointerArray_new :: "element \<Rightarrow> PointerArray" where
  "PointerArray_new domElement =
     \<lparr> items = [], pa_target = domElement, previous = [], removed = [] \<rparr>"

text \<open>The body of the capture loop (lines 262--276): the new contact of one raw sample.\<close>

definition sample_pointer ::
  "element \<Rightarrow> string \<Rightarrow> string \<Rightarrow> int \<Rightarrow> Event \<Rightarrow> DOMRect \<Rightarrow> nat \<Rightarrow> Touch \<Rightarrow> Pointer" where
  "sample_pointer tgt ty pty btns event rect pid t =
     (let p0 = Pointer_new pid tgt ty pty;
          p1 = p0\<lparr> clientX := t_clientX t \<rparr>;
          p2 = p1\<lparr> clientY := t_clientY t \<rparr>;
          p3 = p2\<lparr> x := fsub (t_clientX t) (rect_x rect) \<rparr>;
          p4 = p3\<lparr> y := fsub (t_clientY t) (rect_y rect) \<rparr>;
          p5 = p4\<lparr> startX := fsub (t_clientX t) (rect_x rect) \<rparr>;
          p6 = p5\<lparr> startY := fsub (t_clientY t) (rect_y rect) \<rparr>;
          p7 = p6\<lparr> buttons := btns \<rparr>;
          p8 = (if btns = 1 \<or> btns = 3 \<or> btns = 5 \<or> btns = 7 then p7\<lparr> button := 1 \<rparr>
                else if btns = 2 \<or> btns = 6 then p7\<lparr> button := 2 \<rparr>
                else if btns = 4 then p7\<lparr> button := 3 \<rparr>
                else p7)
      in p8\<lparr> altKey := e_altKey event, ctrlKey := e_ctrlKey event,
              metaKey := e_metaKey event, shiftKey := e_shiftKey event \<rparr>)"

text \<open>The capture loop (lines 260--280): \<open>pid\<close> is the counter \<open>id\<close>.\<close>

fun capture ::
  "element \<Rightarrow> string \<Rightarrow> string \<Rightarrow> int \<Rightarrow> Event \<Rightarrow> DOMRect \<Rightarrow> Touch list \<Rightarrow> nat \<Rightarrow>
   heap \<Rightarrow> ref list \<Rightarrow> heap \<times> ref list" where
  "capture tgt ty pty btns event rect [] pid H this = (H, this)"
| "capture tgt ty pty btns event rect (t # touches) pid H this =
     (if isTouchInTarget t tgt \<or> e_touches event = None
      then let pointer = sample_pointer tgt ty pty btns event rect pid t;
               r = fresh H;
               H1 = \<lparr> objs = (objs H)(r := pointer), fresh = Suc r \<rparr>
           in capture tgt ty pty btns event rect touches (pid + 1) H1 (this @ [r])
      else capture tgt ty pty btns event rect touches pid H this)"

text \<open>
  The matching loop (lines 282--291). \<open>this\<close> is the whole array, \<open>rest\<close> its elements
  from index \<open>i\<close> on (the loop does not change the array, only the objects). The last
  argument records the calls \<open>this[i].update(closest)\<close> the loop makes, as pairs
  \<open>(this[i], closest)\<close> in the order of the calls; the code does not read it. When
  \<open>getClosest(this[i], this.previous)\<close> is \<open>undefined\<close>, the next call of
  \<open>getClosest\<close> reads \<open>pointer.x\<close> of \<open>undefined\<close>, which throws a TypeError.
\<close>

datatype error = TypeError

type_synonym matches = "(ref \<times> ref) list"

fun match_loop ::
  "ref list \<Rightarrow> ref list \<Rightarrow> (ref \<Rightarrow> Pointer) \<Rightarrow> ref list \<Rightarrow> matches \<Rightarrow>
   error + ((ref \<Rightarrow> Pointer) \<times> ref list \<times> matches)" where
  "match_loop this [] h prev ms = Inr (h, prev, ms)"
| "match_loop this (c # rest) h prev ms =
     (if prev \<noteq> [] then
        (case getClosest h c prev of
           None \<Rightarrow> Inl TypeError
         | Some closest \<Rightarrow>
             if getClosest h closest this \<noteq> Some c
             then match_loop this rest h prev ms
             else match_loop this rest
                    (h(c := Pointer_update (h c) (h closest)))
                    (splice1 prev (indexOf prev closest))
                    (ms @ [(c, closest)]))
      else match_loop this rest h prev ms)"

text \<open>
  The last loop (lines 293--296): from the last index down, push \<open>previous[i]\<close> to
  \<open>removed\<close> and splice it out of \<open>previous\<close>.
\<close>

function drain :: "ref list \<Rightarrow> ref list \<Rightarrow> ref list \<times> ref list" where
  "drain prev rem =
     (if prev = [] then (prev, rem)
      else drain (splice1 prev (int (length prev) - 1)) (rem @ [prev ! (length prev - 1)]))"
  by pat_completeness auto
termination
proof (relation "measure (\<lambda>(prev, rem). length prev)")
  show "wf (measure (\<lambda>(prev :: ref list, rem :: ref list). length prev))"
    by simp
next
  fix prev rem :: "ref list"
  assume "prev \<noteq> []"
  then have "0 < length prev"
    by simp
  then have "splice1 prev (int (length prev) - 1) = take (length prev - 1) prev"
    by (simp add: splice1_def Let_def min_def nat_diff_distrib')
  with \<open>0 < length prev\<close> have "length (splice1 prev (int (length prev) - 1)) < length prev"
    by simp
  then show "((splice1 prev (int (length prev) - 1), rem @ [prev ! (length prev - 1)]), prev, rem)
      \<in> measure (\<lambda>(prev, rem). length prev)"
    by simp
qed

text \<open>
  \<open>PointerArray.update(event, type, remove)\<close>, with the rectangle that
  \<open>getBoundingClientRect\<close> returns as a parameter. Lines 245--251 empty
  \<open>previous\<close> and \<open>removed\<close>, push every element of the array to \<open>previous\<close>
  and empty the array: \<open>prev0\<close> is \<open>previous\<close> at that point and the capture loop
  starts from the empty array. Both the capture loop and the matching loop are guarded
  by \<open>!remove\<close>. The result is the new store, the new contact set and the record of
  the matches made.
\<close>

definition PointerArray_update ::
  "heap \<times> PointerArray \<Rightarrow> Event \<Rightarrow> string \<Rightarrow> bool \<Rightarrow> DOMRect \<Rightarrow>
   error + (heap \<times> PointerArray \<times> matches)" where
  "PointerArray_update HA event ty remove rect =
     (let H = fst HA; A = snd HA;
          prev0 = items A;
          touches = (case e_touches event of
                       Some ts \<Rightarrow> ts
                     | None \<Rightarrow> [\<lparr> t_target = e_target event, t_clientX = e_clientX event,
                                  t_clientY = e_clientY event \<rparr>]);
          pointerType = (case e_touches event of Some ts \<Rightarrow> ''touch'' | None \<Rightarrow> ''mouse'');
          btns = (case e_buttons event of None \<Rightarrow> 0 | Some b \<Rightarrow> b);
          (H1, this) = (if \<not> remove
                        then capture (pa_target A) ty pointerType btns event rect touches 0 H []
                        else (H, []))
      in case (if \<not> remove then match_loop this this (objs H1) prev0 []
               else Inr (objs H1, prev0, [])) of
           Inl e \<Rightarrow> Inl e
         | Inr (h2, prev2, ms) \<Rightarrow>
             (let (prev3, removed3) = drain prev2 []
              in Inr (H1\<lparr> objs := h2 \<rparr>,
                      A\<lparr> items := this, previous := prev3, removed := removed3 \<rparr>,
                      ms)))"

section \<open>Notions used to state the properties\<close>

text \<open>
  Invoking a list of handlers in order, as the specification words it: each handler is
  called on the state the one before it has left; nothing is called after a handler
  that has thrown.
\<close>

fun invoke_in_order ::
  "(listener \<Rightarrow> 'p event \<Rightarrow> listeners \<Rightarrow> listeners outcome) \<Rightarrow> listener list \<Rightarrow>
   'p event \<Rightarrow> listeners outcome \<Rightarrow> listeners outcome" where
  "invoke_in_order run [] ev r = r"
| "invoke_in_order run (f # fs) ev (Returned L) = invoke_in_order run fs ev (run f ev L)"
| "invoke_in_order run (f # fs) ev (Thrown L) = Thrown L"

fun returned :: "'s outcome \<Rightarrow> bool" where
  "returned (Returned s) = True"
| "returned (Thrown s) = False"

fun state_of :: "'s outcome \<Rightarrow> 's" where
  "state_of (Returned s) = s"
| "state_of (Thrown s) = s"

text \<open>
  Listeners for the examples. A logging listener \<open>f\<close> registers the listener
  \<open>f + 100\<close> for the type \<open>log\<close> when it is called, so that the array of \<open>log\<close>
  shows which listeners have run, in order; the listener 1 also registers the listener 4
  for the type of the event. In \<open>throwing_first\<close> the listener 1 throws.
\<close>

definition logging :: "listener \<Rightarrow> 'p event \<Rightarrow> listeners \<Rightarrow> listeners outcome" where
  "logging f ev L =
     (let L1 = addEventListener L ''log'' (f + 100)
      in if f = 1 then Returned (addEventListener L1 (ev_type ev) 4) else Returned L1)"

definition throwing_first :: "listener \<Rightarrow> 'p event \<Rightarrow> listeners \<Rightarrow> listeners outcome" where
  "throwing_first f ev L =
     (if f = 1 then Thrown L else Returned (addEventListener L ''log'' (f + 100)))"

definition wheel :: "unit event" where
  "wheel = \<lparr> ev_type = ''wheel'', payload = () \<rparr>"


text \<open>
  The matching loop seen as a function of the positions only: the pairs
  \<open>(this[i], closest)\<close> it accepts, in order. \<open>remove1\<close> is what the splice at
  \<open>indexOf\<close> does when the element is in the array.
\<close>

fun pairing :: "(ref \<Rightarrow> Pointer) \<Rightarrow> ref list \<Rightarrow> ref list \<Rightarrow> ref list \<Rightarrow> matches" where
  "pairing h this [] prev = []"
| "pairing h this (c # rest) prev =
     (if prev \<noteq> [] then
        (case getClosest h c prev of
           None \<Rightarrow> []
         | Some closest \<Rightarrow>
             if getClosest h closest this \<noteq> Some c
             then pairing h this rest prev
             else (c, closest) # pairing h this rest (remove1 closest prev))
      else pairing h this rest prev)"

text \<open>
  The effect on the store of the calls \<open>c.update(p)\<close> for a list of pairs, and the
  effect of their splices on \<open>previous\<close>.
\<close>

fun rebase_all :: "(ref \<Rightarrow> Pointer) \<Rightarrow> matches \<Rightarrow> (ref \<Rightarrow> Pointer)" where
  "rebase_all h [] = h"
| "rebase_all h ((c, p) # P) = rebase_all (h(c := Pointer_update (h c) (h p))) P"

fun consume_all :: "ref list \<Rightarrow> matches \<Rightarrow> ref list" where
  "consume_all prev [] = prev"
| "consume_all prev ((c, p) # P) = consume_all (remove1 p prev) P"

text \<open>
  The states that \<open>update\<close> produces: the contacts of the array are distinct objects that
  have been allocated.
\<close>

definition wf_state :: "heap \<times> PointerArray \<Rightarrow> bool" where
  "wf_state HA = (distinct (items (snd HA)) \<and> list_all (\<lambda>r. r < fresh (fst HA)) (items (snd HA)))"

text \<open>
  The ordinal buttons of the specification and the numbers \<open>pointer.button\<close> takes for
  them in the code (\<open>-1\<close> is the value the constructor sets), and the partition of the
  bitmask values as the specification words it.
\<close>

datatype ordinal = NoButton | Primary | Secondary | Auxiliary

fun button_code :: "ordinal \<Rightarrow> int" where
  "button_code NoButton = - 1"
| "button_code Primary = 1"
| "button_code Secondary = 2"
| "button_code Auxiliary = 3"

definition ordinal_of_bitmask :: "int \<Rightarrow> ordinal" where
  "ordinal_of_bitmask b =
     (if b \<in> {1, 3, 5, 7} then Primary
      else if b \<in> {2, 6} then Secondary
      else if b = 4 then Auxiliary
      else NoButton)"

text \<open>\<open>event.buttons || 0\<close>.\<close>

definition buttons_of :: "Event \<Rightarrow> int" where
  "buttons_of event = (case e_buttons event of None \<Rightarrow> 0 | Some b \<Rightarrow> b)"

subsection \<open>A scenario: touches on one element\<close>

definition div1 :: element where
  "div1 = Element 1 None"

definition touch_at :: "real \<Rightarrow> real \<Rightarrow> Touch" where
  "touch_at a b = \<lparr> t_target = Some div1, t_clientX = a, t_clientY = b \<rparr>"

definition touch_event :: "Touch list \<Rightarrow> Event" where
  "touch_event ts =
     \<lparr> e_touches = Some ts, e_target = Some div1, e_clientX = 0, e_clientY = 0,
       e_buttons = None, e_altKey = Some False, e_ctrlKey = Some False,
       e_metaKey = Some False, e_shiftKey = Some False \<rparr>"

definition rect0 :: DOMRect where
  "rect0 = \<lparr> rect_x = 0, rect_y = 0 \<rparr>"

text \<open>The state of a new \<open>PointerEvents(div1)\<close>: no contact has been allocated.\<close>

definition initial :: "heap \<times> PointerArray" where
  "initial = (\<lparr> objs = (\<lambda>r. Pointer_new 0 div1 [] []), fresh = 0 \<rparr>, PointerArray_new div1)"

text \<open>
  The state after a first \<open>touchstart\<close> with two touches, at (0,0) and (10,0): the
  contacts 0 and 1, with the identities 0 and 1.
\<close>

definition two_contacts :: "heap \<times> PointerArray" where
  "two_contacts =
     (\<lparr> objs = (\<lambda>r. Pointer_new 0 div1 [] [])
          (0 := sample_pointer div1 ''pointerdown'' ''touch'' 0
                  (touch_event [touch_at 0 0, touch_at 10 0]) rect0 0 (touch_at 0 0),
           1 := sample_pointer div1 ''pointerdown'' ''touch'' 0
                  (touch_event [touch_at 0 0, touch_at 10 0]) rect0 1 (touch_at 10 0)),
        fresh = 2 \<rparr>,
      \<lparr> items = [0, 1], pa_target = div1, previous = [], removed = [] \<rparr>)"

text \<open>A contact that has moved down by 3 since the previous frame.\<close>

definition moved_contact :: Pointer where
  "moved_contact =
     (Pointer_new 0 div1 ''pointermove'' ''touch'')
       \<lparr> clientX := 5, clientY := 8, x := 5, y := 8, startX := 5, startY := 5,
         movementX := 0, movementY := 3, distanceX := 0, distanceY := 3 \<rparr>"

text \<open>A mouse event on \<open>div1\<close> at (3,4), with the given \<open>buttons\<close> bitmask.\<close>

definition mouse_event :: "int \<Rightarrow> Event" where
  "mouse_event b =
     \<lparr> e_touches = None, e_target = Some div1, e_clientX = 3, e_clientY = 4,
       e_buttons = Some b, e_altKey = Some False, e_ctrlKey = Some False,
       e_metaKey = Some False, e_shiftKey = Some False \<rparr>"


text \<open>
  The state after a first \<open>touchstart\<close> with two touches, at
  \<open>(4, 3 + 2 ^ -51)\<close> and at (5,0): the contacts 0 and 1. The second coordinate of
  the first touch is the double next above 3.
\<close>

definition next_above_3 :: real where
  "next_above_3 = 6755399441055745 / 2251799813685248"

definition near_contacts :: "heap \<times> PointerArray" where
  "near_contacts =
     (\<lparr> objs = (\<lambda>r. Pointer_new 0 div1 [] [])
          (0 := sample_pointer div1 ''pointerdown'' ''touch'' 0
                  (touch_event [touch_at 4 next_above_3, touch_at 5 0]) rect0 0
                  (touch_at 4 next_above_3),
           1 := sample_pointer div1 ''pointerdown'' ''touch'' 0
                  (touch_event [touch_at 4 next_above_3, touch_at 5 0]) rect0 1 (touch_at 5 0)),
        fresh = 2 \<rparr>,
      \<lparr> items = [0, 1], pa_target = div1, previous = [], removed = [] \<rparr>)"

text \<open>
  The state after a \<open>touchmove\<close> with one touch, at (0,0), in the state
  \<open>near_contacts\<close>: the new contact 2 has been updated from the contact 0, and the
  contact 1 is removed.
\<close>

definition near_after :: "heap \<times> PointerArray" where
  "near_after =
     (\<lparr> objs = (objs (fst near_contacts))
          (2 := Pointer_update
                  (sample_pointer div1 ''pointermove'' ''touch'' 0
                     (touch_event [touch_at 0 0]) rect0 0 (touch_at 0 0))
                  (objs (fst near_contacts) 0)),
        fresh = 3 \<rparr>,
      \<lparr> items = [2], pa_target = div1, previous = [], removed = [1] \<rparr>)"


section \<open>Arrays: \<open>indexOf\<close> and \<open>splice\<close>\<close>

lemma indexOf_ge: "- 1 \<le> indexOf xs v"
  by (induction xs) (auto simp: Let_def)

lemma indexOf_notin: "indexOf xs v = - 1 \<longleftrightarrow> v \<notin> set xs"
proof (induction xs)
  case Nil
  then show ?case by simp
next
  case (Cons a xs)
  have "indexOf xs v + 1 \<noteq> - 1"
    using indexOf_ge [of xs v] by arith
  with Cons show ?case
    by (auto simp: Let_def)
qed

lemma splice1_indexOf: "v \<in> set xs \<Longrightarrow> splice1 xs (indexOf xs v) = remove1 v xs"
proof (induction xs)
  case Nil
  then show ?case by simp
next
  case (Cons a xs)
  show ?case
  proof (cases "a = v")
    case True
    then show ?thesis by (simp add: splice1_def)
  next
    case False
    with Cons.prems have mem: "v \<in> set xs" by simp
    then have ne: "indexOf xs v \<noteq> - 1" by (simp add: indexOf_notin)
    with indexOf_ge [of xs v] have ge: "0 \<le> indexOf xs v" by arith
    have "splice1 xs (indexOf xs v) = remove1 v xs" using Cons.IH mem by simp
    then show ?thesis using False ne ge
      by (simp add: splice1_def Let_def min_def nat_add_distrib split: if_splits)
  qed
qed

lemma drain_eq: "drain prev rem = ([], rem @ rev prev)"
proof (induction prev arbitrary: rem rule: rev_induct)
  case Nil
  then show ?case by simp
next
  case (snoc a prev)
  have "splice1 (prev @ [a]) (int (length (prev @ [a])) - 1) = prev"
    by (simp add: splice1_def Let_def min_def)
  then show ?case using snoc [of "rem @ [a]"]
    by (subst drain.simps) (simp add: nth_append)
qed

section \<open>Rounding to a double\<close>

lemma pow2_powr: "pow2 k = 2 powr (of_int k)"
proof (cases "0 \<le> k")
  case True
  then show ?thesis by (simp add: pow2_def powr_realpow [symmetric])
next
  case False
  then have "pow2 k = inverse (2 powr (of_int (- k)))"
    by (simp add: pow2_def powr_realpow [symmetric])
  then show ?thesis by (simp add: powr_minus)
qed

lemma pow2_pos: "0 < pow2 k"
  by (simp add: pow2_powr)

lemma round_even_near:
  assumes "\<bar>r - of_int n\<bar> < 1 / 2"
  shows "round_even r = n"
proof (cases "of_int n \<le> r")
  case True
  with assms have "\<lfloor>r\<rfloor> = n" by (intro floor_unique) auto
  with assms True show ?thesis by (simp add: round_even_def Let_def)
next
  case False
  with assms have f: "\<lfloor>r\<rfloor> = n - 1" by (intro floor_unique) auto
  with assms False have "1 / 2 < r - of_int \<lfloor>r\<rfloor>" by simp
  with f show ?thesis by (simp add: round_even_def Let_def)
qed

lemma round_even_of_int: "round_even (of_int n) = n"
  by (rule round_even_near) simp

lemma fl_0: "fl 0 = 0"
  by (simp add: fl_def)

lemma fl_binade:
  assumes "pow2 k \<le> \<bar>v\<bar>" and "\<bar>v\<bar> < pow2 (k + 1)" and "- 1022 \<le> k"
  shows "fl v = of_int (round_even (v / pow2 (k - 52))) * pow2 (k - 52)"
proof -
  from assms(1) pow2_pos [of k] have nz: "v \<noteq> 0" by auto
  then have "0 < \<bar>v\<bar>" by simp
  moreover have "2 powr (of_int k) \<le> \<bar>v\<bar> \<and> \<bar>v\<bar> < 2 powr (of_int k + 1)"
    using assms(1,2) by (simp add: pow2_powr)
  ultimately have "\<lfloor>log 2 \<bar>v\<bar>\<rfloor> = k"
    using floor_log_eq_powr_iff [of "\<bar>v\<bar>" 2 k] by simp
  with nz assms(3) show ?thesis by (simp add: fl_def Let_def max_def)
qed

lemma fl_eqI:
  assumes "pow2 k \<le> \<bar>v\<bar>" and "\<bar>v\<bar> < pow2 (k + 1)" and "- 1022 \<le> k"
    and "\<bar>v / pow2 (k - 52) - of_int n\<bar> < 1 / 2"
    and "r = of_int n * pow2 (k - 52)"
  shows "fl v = r"
  using fl_binade [OF assms(1-3)] round_even_near [OF assms(4)] assms(5) by simp

lemma round_even_tie:
  assumes "\<bar>r - of_int n\<bar> = 1 / 2" and "even n"
  shows "round_even r = n"
proof (cases "of_int n \<le> r")
  case True
  with assms(1) have r: "r = of_int n + 1 / 2" by simp
  then have "\<lfloor>r\<rfloor> = n" by (intro floor_unique) auto
  with r assms(2) show ?thesis by (simp add: round_even_def Let_def)
next
  case False
  with assms(1) have r: "r = of_int n - 1 / 2" by simp
  then have f: "\<lfloor>r\<rfloor> = n - 1" by (intro floor_unique) auto
  with r have "r - of_int \<lfloor>r\<rfloor> = 1 / 2" by simp
  with f assms(2) show ?thesis by (simp add: round_even_def Let_def)
qed

lemma fl_eqI_tie:
  assumes "pow2 k \<le> \<bar>v\<bar>" and "\<bar>v\<bar> < pow2 (k + 1)" and "- 1022 \<le> k"
    and "\<bar>v / pow2 (k - 52) - of_int n\<bar> = 1 / 2" and "even n"
    and "r = of_int n * pow2 (k - 52)"
  shows "fl v = r"
  using fl_binade [OF assms(1-3)] round_even_tie [OF assms(4,5)] assms(6) by simp

lemma fl_sqrt_eqI:
  assumes "(pow2 k)\<^sup>2 \<le> v" and "v < (pow2 (k + 1))\<^sup>2" and "- 1022 \<le> k"
    and "1 \<le> n"
    and "((of_int n - 1 / 2) * pow2 (k - 52))\<^sup>2 < v"
    and "v < ((of_int n + 1 / 2) * pow2 (k - 52))\<^sup>2"
    and "r = of_int n * pow2 (k - 52)"
  shows "fsqrt v = r"
proof -
  have p: "0 < pow2 k" "0 < pow2 (k + 1)" "0 < pow2 (k - 52)" by (rule pow2_pos)+
  from assms(1) have v0: "0 \<le> v" by (meson order_trans zero_le_power2)
  have s0: "0 \<le> sqrt v" using v0 by simp
  have 1: "pow2 k \<le> \<bar>sqrt v\<bar>"
    using assms(1) p(1) v0 by (simp add: real_le_rsqrt)
  have 2: "\<bar>sqrt v\<bar> < pow2 (k + 1)"
    using assms(2) p(2) v0 by (simp add: real_less_lsqrt)
  have lo: "(of_int n - 1 / 2) * pow2 (k - 52) < sqrt v"
  proof -
    have "0 \<le> (of_int n - 1 / 2) * pow2 (k - 52)" using assms(4) p(3) by simp
    with assms(5) show ?thesis by (simp add: real_less_rsqrt)
  qed
  have hi: "sqrt v < (of_int n + 1 / 2) * pow2 (k - 52)"
  proof -
    have "0 \<le> (of_int n + 1 / 2) * pow2 (k - 52)" using assms(4) p(3) by simp
    with assms(6) v0 show ?thesis by (simp add: real_less_lsqrt)
  qed
  from lo hi p(3) have "of_int n - 1 / 2 < sqrt v / pow2 (k - 52)"
    and "sqrt v / pow2 (k - 52) < of_int n + 1 / 2"
    by (simp_all add: pos_less_divide_eq pos_divide_less_eq)
  then have 3: "\<bar>sqrt v / pow2 (k - 52) - of_int n\<bar> < 1 / 2" by linarith
  show ?thesis unfolding fsqrt_def by (rule fl_eqI [OF 1 2 assms(3) 3 assms(7)])
qed

lemma fl_nonneg: "0 \<le> v \<Longrightarrow> 0 \<le> fl v"
proof (cases "v = 0")
  case True
  then show ?thesis by (simp add: fl_0)
next
  case False
  assume "0 \<le> v"
  let ?e = "max \<lfloor>log 2 \<bar>v\<bar>\<rfloor> (- 1022) - 52"
  from \<open>0 \<le> v\<close> pow2_pos [of ?e] have "0 \<le> v / pow2 ?e" by simp
  then have "0 \<le> \<lfloor>v / pow2 ?e\<rfloor>" by simp
  then have "0 \<le> round_even (v / pow2 ?e)" by (simp add: round_even_def Let_def)
  with pow2_pos [of ?e] False show ?thesis by (simp add: fl_def Let_def)
qed

lemma fl_of_int:
  assumes "\<bar>n\<bar> < 2 ^ 53"
  shows "fl (of_int n) = of_int n"
proof (cases "n = 0")
  case True
  then show ?thesis by (simp add: fl_0)
next
  case False
  let ?v = "real_of_int n"
  let ?k = "\<lfloor>log 2 \<bar>?v\<bar>\<rfloor>"
  from False have one: "1 \<le> \<bar>?v\<bar>"
    by (metis abs_of_nonneg abs_ge_zero of_int_abs of_int_1_le_iff
        zero_less_abs_iff int_one_le_iff_zero_less)
  then have "0 \<le> log 2 \<bar>?v\<bar>" by simp
  then have k0: "0 \<le> ?k" by simp
  from assms have "\<bar>?v\<bar> < 2 ^ 53"
    by (metis of_int_abs of_int_less_iff of_int_numeral of_int_power)
  then have "\<bar>?v\<bar> < 2 powr 53" by simp
  with one have "log 2 \<bar>?v\<bar> < 53"
    by (simp add: log_less_iff)
  then have k52: "?k \<le> 52" by (simp add: floor_le_iff)
  from k0 have e: "max ?k (- 1022) - 52 = ?k - 52" by simp
  from k52 have p: "pow2 (?k - 52) = inverse (2 ^ nat (52 - ?k))"
    by (cases "?k = 52") (simp_all add: pow2_def)
  have "?v / pow2 (?k - 52) = of_int (n * 2 ^ nat (52 - ?k))"
    by (simp add: p divide_inverse)
  then have "round_even (?v / pow2 (?k - 52)) = n * 2 ^ nat (52 - ?k)"
    by (simp only: round_even_of_int)
  then have "of_int (round_even (?v / pow2 (?k - 52))) * pow2 (?k - 52) = ?v"
    by (simp add: p)
  with False e show ?thesis by (simp add: fl_def Let_def)
qed

lemma fl_numeral [simp]:
  "(numeral w :: int) < 9007199254740992 \<Longrightarrow> fl (numeral w) = numeral w"
  using fl_of_int [of "numeral w"] by simp

lemma fl_neg_numeral [simp]:
  "(numeral w :: int) < 9007199254740992 \<Longrightarrow> fl (- numeral w) = - numeral w"
  using fl_of_int [of "- numeral w"] by simp

lemma fl_1 [simp]: "fl 1 = 1"
  using fl_of_int [of 1] by simp

lemma fl_neg_1 [simp]: "fl (- 1) = - 1"
  using fl_of_int [of "- 1"] by simp

lemma fl_0' [simp]: "fl 0 = 0"
  by (rule fl_0)

section \<open>Computed distances of the examples\<close>

lemma d_1_0__0_0: "dist_xy 1 0 0 0 = 1"
proof -
  have dx: "fsub 1 0 = 1"
    unfolding fsub_def
    by (rule fl_eqI [where k = 0 and n = 4503599627370496]) (simp_all add: pow2_def)
  have dy: "fsub 0 0 = 0"
    by (simp add: fsub_def)
  have xx: "fmul 1 1 = 1"
    unfolding fmul_def
    by (rule fl_eqI [where k = 0 and n = 4503599627370496]) (simp_all add: pow2_def)
  have yy: "fmul 0 0 = 0"
    by (simp add: fmul_def)
  have sum: "fadd 1 0 = 1"
    unfolding fadd_def
    by (rule fl_eqI [where k = 0 and n = 4503599627370496]) (simp_all add: pow2_def)
  have root: "fsqrt 1 = 1"
    by (rule fl_sqrt_eqI [where k = 0 and n = 4503599627370496]) (simp_all add: pow2_def power2_eq_square)
  show ?thesis
    unfolding dist_xy_def Let_def dx dy xx yy sum root ..
qed

lemma d_1_0__10_0: "dist_xy 1 0 10 0 = 9"
proof -
  have dx: "fsub 1 10 = - 9"
    unfolding fsub_def
    by (rule fl_eqI [where k = 3 and n = "- 5066549580791808"]) (simp_all add: pow2_def)
  have dy: "fsub 0 0 = 0"
    by (simp add: fsub_def)
  have xx: "fmul (- 9) (- 9) = 81"
    unfolding fmul_def
    by (rule fl_eqI [where k = 6 and n = 5699868278390784]) (simp_all add: pow2_def)
  have yy: "fmul 0 0 = 0"
    by (simp add: fmul_def)
  have sum: "fadd 81 0 = 81"
    unfolding fadd_def
    by (rule fl_eqI [where k = 6 and n = 5699868278390784]) (simp_all add: pow2_def)
  have root: "fsqrt 81 = 9"
    by (rule fl_sqrt_eqI [where k = 3 and n = 5066549580791808]) (simp_all add: pow2_def power2_eq_square)
  show ?thesis
    unfolding dist_xy_def Let_def dx dy xx yy sum root ..
qed

lemma d_0_0__1_0: "dist_xy 0 0 1 0 = 1"
proof -
  have dx: "fsub 0 1 = - 1"
    unfolding fsub_def
    by (rule fl_eqI [where k = 0 and n = "- 4503599627370496"]) (simp_all add: pow2_def)
  have dy: "fsub 0 0 = 0"
    by (simp add: fsub_def)
  have xx: "fmul (- 1) (- 1) = 1"
    unfolding fmul_def
    by (rule fl_eqI [where k = 0 and n = 4503599627370496]) (simp_all add: pow2_def)
  have yy: "fmul 0 0 = 0"
    by (simp add: fmul_def)
  have sum: "fadd 1 0 = 1"
    unfolding fadd_def
    by (rule fl_eqI [where k = 0 and n = 4503599627370496]) (simp_all add: pow2_def)
  have root: "fsqrt 1 = 1"
    by (rule fl_sqrt_eqI [where k = 0 and n = 4503599627370496]) (simp_all add: pow2_def power2_eq_square)
  show ?thesis
    unfolding dist_xy_def Let_def dx dy xx yy sum root ..
qed

lemma d_0_0__9_0: "dist_xy 0 0 9 0 = 9"
proof -
  have dx: "fsub 0 9 = - 9"
    unfolding fsub_def
    by (rule fl_eqI [where k = 3 and n = "- 5066549580791808"]) (simp_all add: pow2_def)
  have dy: "fsub 0 0 = 0"
    by (simp add: fsub_def)
  have xx: "fmul (- 9) (- 9) = 81"
    unfolding fmul_def
    by (rule fl_eqI [where k = 6 and n = 5699868278390784]) (simp_all add: pow2_def)
  have yy: "fmul 0 0 = 0"
    by (simp add: fmul_def)
  have sum: "fadd 81 0 = 81"
    unfolding fadd_def
    by (rule fl_eqI [where k = 6 and n = 5699868278390784]) (simp_all add: pow2_def)
  have root: "fsqrt 81 = 9"
    by (rule fl_sqrt_eqI [where k = 3 and n = 5066549580791808]) (simp_all add: pow2_def power2_eq_square)
  show ?thesis
    unfolding dist_xy_def Let_def dx dy xx yy sum root ..
qed

lemma d_9_0__10_0: "dist_xy 9 0 10 0 = 1"
proof -
  have dx: "fsub 9 10 = - 1"
    unfolding fsub_def
    by (rule fl_eqI [where k = 0 and n = "- 4503599627370496"]) (simp_all add: pow2_def)
  have dy: "fsub 0 0 = 0"
    by (simp add: fsub_def)
  have xx: "fmul (- 1) (- 1) = 1"
    unfolding fmul_def
    by (rule fl_eqI [where k = 0 and n = 4503599627370496]) (simp_all add: pow2_def)
  have yy: "fmul 0 0 = 0"
    by (simp add: fmul_def)
  have sum: "fadd 1 0 = 1"
    unfolding fadd_def
    by (rule fl_eqI [where k = 0 and n = 4503599627370496]) (simp_all add: pow2_def)
  have root: "fsqrt 1 = 1"
    by (rule fl_sqrt_eqI [where k = 0 and n = 4503599627370496]) (simp_all add: pow2_def power2_eq_square)
  show ?thesis
    unfolding dist_xy_def Let_def dx dy xx yy sum root ..
qed

lemma d_9_0__0_0: "dist_xy 9 0 0 0 = 9"
proof -
  have dx: "fsub 9 0 = 9"
    unfolding fsub_def
    by (rule fl_eqI [where k = 3 and n = 5066549580791808]) (simp_all add: pow2_def)
  have dy: "fsub 0 0 = 0"
    by (simp add: fsub_def)
  have xx: "fmul 9 9 = 81"
    unfolding fmul_def
    by (rule fl_eqI [where k = 6 and n = 5699868278390784]) (simp_all add: pow2_def)
  have yy: "fmul 0 0 = 0"
    by (simp add: fmul_def)
  have sum: "fadd 81 0 = 81"
    unfolding fadd_def
    by (rule fl_eqI [where k = 6 and n = 5699868278390784]) (simp_all add: pow2_def)
  have root: "fsqrt 81 = 9"
    by (rule fl_sqrt_eqI [where k = 3 and n = 5066549580791808]) (simp_all add: pow2_def power2_eq_square)
  show ?thesis
    unfolding dist_xy_def Let_def dx dy xx yy sum root ..
qed

lemma d_10_0__1_0: "dist_xy 10 0 1 0 = 9"
proof -
  have dx: "fsub 10 1 = 9"
    unfolding fsub_def
    by (rule fl_eqI [where k = 3 and n = 5066549580791808]) (simp_all add: pow2_def)
  have dy: "fsub 0 0 = 0"
    by (simp add: fsub_def)
  have xx: "fmul 9 9 = 81"
    unfolding fmul_def
    by (rule fl_eqI [where k = 6 and n = 5699868278390784]) (simp_all add: pow2_def)
  have yy: "fmul 0 0 = 0"
    by (simp add: fmul_def)
  have sum: "fadd 81 0 = 81"
    unfolding fadd_def
    by (rule fl_eqI [where k = 6 and n = 5699868278390784]) (simp_all add: pow2_def)
  have root: "fsqrt 81 = 9"
    by (rule fl_sqrt_eqI [where k = 3 and n = 5066549580791808]) (simp_all add: pow2_def power2_eq_square)
  show ?thesis
    unfolding dist_xy_def Let_def dx dy xx yy sum root ..
qed

lemma d_10_0__9_0: "dist_xy 10 0 9 0 = 1"
proof -
  have dx: "fsub 10 9 = 1"
    unfolding fsub_def
    by (rule fl_eqI [where k = 0 and n = 4503599627370496]) (simp_all add: pow2_def)
  have dy: "fsub 0 0 = 0"
    by (simp add: fsub_def)
  have xx: "fmul 1 1 = 1"
    unfolding fmul_def
    by (rule fl_eqI [where k = 0 and n = 4503599627370496]) (simp_all add: pow2_def)
  have yy: "fmul 0 0 = 0"
    by (simp add: fmul_def)
  have sum: "fadd 1 0 = 1"
    unfolding fadd_def
    by (rule fl_eqI [where k = 0 and n = 4503599627370496]) (simp_all add: pow2_def)
  have root: "fsqrt 1 = 1"
    by (rule fl_sqrt_eqI [where k = 0 and n = 4503599627370496]) (simp_all add: pow2_def power2_eq_square)
  show ?thesis
    unfolding dist_xy_def Let_def dx dy xx yy sum root ..
qed

lemma d_10_0__0_0: "dist_xy 10 0 0 0 = 10"
proof -
  have dx: "fsub 10 0 = 10"
    unfolding fsub_def
    by (rule fl_eqI [where k = 3 and n = 5629499534213120]) (simp_all add: pow2_def)
  have dy: "fsub 0 0 = 0"
    by (simp add: fsub_def)
  have xx: "fmul 10 10 = 100"
    unfolding fmul_def
    by (rule fl_eqI [where k = 6 and n = 7036874417766400]) (simp_all add: pow2_def)
  have yy: "fmul 0 0 = 0"
    by (simp add: fmul_def)
  have sum: "fadd 100 0 = 100"
    unfolding fadd_def
    by (rule fl_eqI [where k = 6 and n = 7036874417766400]) (simp_all add: pow2_def)
  have root: "fsqrt 100 = 10"
    by (rule fl_sqrt_eqI [where k = 3 and n = 5629499534213120]) (simp_all add: pow2_def power2_eq_square)
  show ?thesis
    unfolding dist_xy_def Let_def dx dy xx yy sum root ..
qed

lemma d_10_0__10_0: "dist_xy 10 0 10 0 = 0"
proof -
  have dx: "fsub 10 10 = 0"
    by (simp add: fsub_def)
  have dy: "fsub 0 0 = 0"
    by (simp add: fsub_def)
  have xx: "fmul 0 0 = 0"
    by (simp add: fmul_def)
  have yy: "fmul 0 0 = 0"
    by (simp add: fmul_def)
  have sum: "fadd 0 0 = 0"
    by (simp add: fadd_def)
  have root: "fsqrt 0 = 0"
    by (simp add: fsqrt_def)
  show ?thesis
    unfolding dist_xy_def Let_def dx dy xx yy sum root ..
qed

lemma d_10_0__5_100: "dist_xy 10 0 5 100 = 3522832510045849 / 35184372088832"
proof -
  have dx: "fsub 10 5 = 5"
    unfolding fsub_def
    by (rule fl_eqI [where k = 2 and n = 5629499534213120]) (simp_all add: pow2_def)
  have dy: "fsub 0 100 = - 100"
    unfolding fsub_def
    by (rule fl_eqI [where k = 6 and n = "- 7036874417766400"]) (simp_all add: pow2_def)
  have xx: "fmul 5 5 = 25"
    unfolding fmul_def
    by (rule fl_eqI [where k = 4 and n = 7036874417766400]) (simp_all add: pow2_def)
  have yy: "fmul (- 100) (- 100) = 10000"
    unfolding fmul_def
    by (rule fl_eqI [where k = 13 and n = 5497558138880000]) (simp_all add: pow2_def)
  have sum: "fadd 25 10000 = 10025"
    unfolding fadd_def
    by (rule fl_eqI [where k = 13 and n = 5511302034227200]) (simp_all add: pow2_def)
  have root: "fsqrt 10025 = 3522832510045849 / 35184372088832"
    by (rule fl_sqrt_eqI [where k = 6 and n = 7045665020091698]) (simp_all add: pow2_def power2_eq_square)
  show ?thesis
    unfolding dist_xy_def Let_def dx dy xx yy sum root ..
qed

lemma d_5_100__0_0: "dist_xy 5 100 0 0 = 3522832510045849 / 35184372088832"
proof -
  have dx: "fsub 5 0 = 5"
    unfolding fsub_def
    by (rule fl_eqI [where k = 2 and n = 5629499534213120]) (simp_all add: pow2_def)
  have dy: "fsub 100 0 = 100"
    unfolding fsub_def
    by (rule fl_eqI [where k = 6 and n = 7036874417766400]) (simp_all add: pow2_def)
  have xx: "fmul 5 5 = 25"
    unfolding fmul_def
    by (rule fl_eqI [where k = 4 and n = 7036874417766400]) (simp_all add: pow2_def)
  have yy: "fmul 100 100 = 10000"
    unfolding fmul_def
    by (rule fl_eqI [where k = 13 and n = 5497558138880000]) (simp_all add: pow2_def)
  have sum: "fadd 25 10000 = 10025"
    unfolding fadd_def
    by (rule fl_eqI [where k = 13 and n = 5511302034227200]) (simp_all add: pow2_def)
  have root: "fsqrt 10025 = 3522832510045849 / 35184372088832"
    by (rule fl_sqrt_eqI [where k = 6 and n = 7045665020091698]) (simp_all add: pow2_def power2_eq_square)
  show ?thesis
    unfolding dist_xy_def Let_def dx dy xx yy sum root ..
qed

lemma d_5_100__10_0: "dist_xy 5 100 10 0 = 3522832510045849 / 35184372088832"
proof -
  have dx: "fsub 5 10 = - 5"
    unfolding fsub_def
    by (rule fl_eqI [where k = 2 and n = "- 5629499534213120"]) (simp_all add: pow2_def)
  have dy: "fsub 100 0 = 100"
    unfolding fsub_def
    by (rule fl_eqI [where k = 6 and n = 7036874417766400]) (simp_all add: pow2_def)
  have xx: "fmul (- 5) (- 5) = 25"
    unfolding fmul_def
    by (rule fl_eqI [where k = 4 and n = 7036874417766400]) (simp_all add: pow2_def)
  have yy: "fmul 100 100 = 10000"
    unfolding fmul_def
    by (rule fl_eqI [where k = 13 and n = 5497558138880000]) (simp_all add: pow2_def)
  have sum: "fadd 25 10000 = 10025"
    unfolding fadd_def
    by (rule fl_eqI [where k = 13 and n = 5511302034227200]) (simp_all add: pow2_def)
  have root: "fsqrt 10025 = 3522832510045849 / 35184372088832"
    by (rule fl_sqrt_eqI [where k = 6 and n = 7045665020091698]) (simp_all add: pow2_def power2_eq_square)
  show ?thesis
    unfolding dist_xy_def Let_def dx dy xx yy sum root ..
qed

lemma d_0_0__10_0: "dist_xy 0 0 10 0 = 10"
proof -
  have dx: "fsub 0 10 = - 10"
    unfolding fsub_def
    by (rule fl_eqI [where k = 3 and n = "- 5629499534213120"]) (simp_all add: pow2_def)
  have dy: "fsub 0 0 = 0"
    by (simp add: fsub_def)
  have xx: "fmul (- 10) (- 10) = 100"
    unfolding fmul_def
    by (rule fl_eqI [where k = 6 and n = 7036874417766400]) (simp_all add: pow2_def)
  have yy: "fmul 0 0 = 0"
    by (simp add: fmul_def)
  have sum: "fadd 100 0 = 100"
    unfolding fadd_def
    by (rule fl_eqI [where k = 6 and n = 7036874417766400]) (simp_all add: pow2_def)
  have root: "fsqrt 100 = 10"
    by (rule fl_sqrt_eqI [where k = 3 and n = 5629499534213120]) (simp_all add: pow2_def power2_eq_square)
  show ?thesis
    unfolding dist_xy_def Let_def dx dy xx yy sum root ..
qed

lemma d_0_0__5_100: "dist_xy 0 0 5 100 = 3522832510045849 / 35184372088832"
proof -
  have dx: "fsub 0 5 = - 5"
    unfolding fsub_def
    by (rule fl_eqI [where k = 2 and n = "- 5629499534213120"]) (simp_all add: pow2_def)
  have dy: "fsub 0 100 = - 100"
    unfolding fsub_def
    by (rule fl_eqI [where k = 6 and n = "- 7036874417766400"]) (simp_all add: pow2_def)
  have xx: "fmul (- 5) (- 5) = 25"
    unfolding fmul_def
    by (rule fl_eqI [where k = 4 and n = 7036874417766400]) (simp_all add: pow2_def)
  have yy: "fmul (- 100) (- 100) = 10000"
    unfolding fmul_def
    by (rule fl_eqI [where k = 13 and n = 5497558138880000]) (simp_all add: pow2_def)
  have sum: "fadd 25 10000 = 10025"
    unfolding fadd_def
    by (rule fl_eqI [where k = 13 and n = 5511302034227200]) (simp_all add: pow2_def)
  have root: "fsqrt 10025 = 3522832510045849 / 35184372088832"
    by (rule fl_sqrt_eqI [where k = 6 and n = 7045665020091698]) (simp_all add: pow2_def power2_eq_square)
  show ?thesis
    unfolding dist_xy_def Let_def dx dy xx yy sum root ..
qed

lemma d_5_0__0_0: "dist_xy 5 0 0 0 = 5"
proof -
  have dx: "fsub 5 0 = 5"
    unfolding fsub_def
    by (rule fl_eqI [where k = 2 and n = 5629499534213120]) (simp_all add: pow2_def)
  have dy: "fsub 0 0 = 0"
    by (simp add: fsub_def)
  have xx: "fmul 5 5 = 25"
    unfolding fmul_def
    by (rule fl_eqI [where k = 4 and n = 7036874417766400]) (simp_all add: pow2_def)
  have yy: "fmul 0 0 = 0"
    by (simp add: fmul_def)
  have sum: "fadd 25 0 = 25"
    unfolding fadd_def
    by (rule fl_eqI [where k = 4 and n = 7036874417766400]) (simp_all add: pow2_def)
  have root: "fsqrt 25 = 5"
    by (rule fl_sqrt_eqI [where k = 2 and n = 5629499534213120]) (simp_all add: pow2_def power2_eq_square)
  show ?thesis
    unfolding dist_xy_def Let_def dx dy xx yy sum root ..
qed

lemma d_5_0__10_0: "dist_xy 5 0 10 0 = 5"
proof -
  have dx: "fsub 5 10 = - 5"
    unfolding fsub_def
    by (rule fl_eqI [where k = 2 and n = "- 5629499534213120"]) (simp_all add: pow2_def)
  have dy: "fsub 0 0 = 0"
    by (simp add: fsub_def)
  have xx: "fmul (- 5) (- 5) = 25"
    unfolding fmul_def
    by (rule fl_eqI [where k = 4 and n = 7036874417766400]) (simp_all add: pow2_def)
  have yy: "fmul 0 0 = 0"
    by (simp add: fmul_def)
  have sum: "fadd 25 0 = 25"
    unfolding fadd_def
    by (rule fl_eqI [where k = 4 and n = 7036874417766400]) (simp_all add: pow2_def)
  have root: "fsqrt 25 = 5"
    by (rule fl_sqrt_eqI [where k = 2 and n = 5629499534213120]) (simp_all add: pow2_def power2_eq_square)
  show ?thesis
    unfolding dist_xy_def Let_def dx dy xx yy sum root ..
qed

lemma d_0_0__4_c: "dist_xy 0 0 4 (6755399441055745 / 2251799813685248) = 5"
proof -
  have dx: "fsub 0 4 = - 4"
    unfolding fsub_def
    by (rule fl_eqI [where k = 2 and n = "- 4503599627370496"]) (simp_all add: pow2_def)
  have dy: "fsub 0 (6755399441055745 / 2251799813685248) = - (6755399441055745 / 2251799813685248)"
    unfolding fsub_def
    by (rule fl_eqI [where k = 1 and n = "- 6755399441055745"]) (simp_all add: pow2_def)
  have xx: "fmul (- 4) (- 4) = 16"
    unfolding fmul_def
    by (rule fl_eqI [where k = 4 and n = 4503599627370496]) (simp_all add: pow2_def)
  have yy: "fmul (- (6755399441055745 / 2251799813685248)) (- (6755399441055745 / 2251799813685248)) = 2533274790395905 / 281474976710656"
    unfolding fmul_def
    by (rule fl_eqI [where k = 3 and n = 5066549580791810]) (simp_all add: pow2_def)
  have sum: "fadd 16 (2533274790395905 / 281474976710656) = 7036874417766401 / 281474976710656"
    unfolding fadd_def
    by (rule fl_eqI [where k = 4 and n = 7036874417766401]) (simp_all add: pow2_def)
  have root: "fsqrt (7036874417766401 / 281474976710656) = 5"
    by (rule fl_sqrt_eqI [where k = 2 and n = 5629499534213120]) (simp_all add: pow2_def power2_eq_square)
  show ?thesis
    unfolding dist_xy_def Let_def dx dy xx yy sum root ..
qed

lemma d_0_0__5_0: "dist_xy 0 0 5 0 = 5"
proof -
  have dx: "fsub 0 5 = - 5"
    unfolding fsub_def
    by (rule fl_eqI [where k = 2 and n = "- 5629499534213120"]) (simp_all add: pow2_def)
  have dy: "fsub 0 0 = 0"
    by (simp add: fsub_def)
  have xx: "fmul (- 5) (- 5) = 25"
    unfolding fmul_def
    by (rule fl_eqI [where k = 4 and n = 7036874417766400]) (simp_all add: pow2_def)
  have yy: "fmul 0 0 = 0"
    by (simp add: fmul_def)
  have sum: "fadd 25 0 = 25"
    unfolding fadd_def
    by (rule fl_eqI [where k = 4 and n = 7036874417766400]) (simp_all add: pow2_def)
  have root: "fsqrt 25 = 5"
    by (rule fl_sqrt_eqI [where k = 2 and n = 5629499534213120]) (simp_all add: pow2_def power2_eq_square)
  show ?thesis
    unfolding dist_xy_def Let_def dx dy xx yy sum root ..
qed

lemma d_4_c__0_0: "dist_xy 4 (6755399441055745 / 2251799813685248) 0 0 = 5"
proof -
  have dx: "fsub 4 0 = 4"
    unfolding fsub_def
    by (rule fl_eqI [where k = 2 and n = 4503599627370496]) (simp_all add: pow2_def)
  have dy: "fsub (6755399441055745 / 2251799813685248) 0 = 6755399441055745 / 2251799813685248"
    unfolding fsub_def
    by (rule fl_eqI [where k = 1 and n = 6755399441055745]) (simp_all add: pow2_def)
  have xx: "fmul 4 4 = 16"
    unfolding fmul_def
    by (rule fl_eqI [where k = 4 and n = 4503599627370496]) (simp_all add: pow2_def)
  have yy: "fmul (6755399441055745 / 2251799813685248) (6755399441055745 / 2251799813685248) = 2533274790395905 / 281474976710656"
    unfolding fmul_def
    by (rule fl_eqI [where k = 3 and n = 5066549580791810]) (simp_all add: pow2_def)
  have sum: "fadd 16 (2533274790395905 / 281474976710656) = 7036874417766401 / 281474976710656"
    unfolding fadd_def
    by (rule fl_eqI [where k = 4 and n = 7036874417766401]) (simp_all add: pow2_def)
  have root: "fsqrt (7036874417766401 / 281474976710656) = 5"
    by (rule fl_sqrt_eqI [where k = 2 and n = 5629499534213120]) (simp_all add: pow2_def power2_eq_square)
  show ?thesis
    unfolding dist_xy_def Let_def dx dy xx yy sum root ..
qed

lemma d_0_0__0_0: "dist_xy 0 0 0 0 = 0"
proof -
  have dx: "fsub 0 0 = 0"
    by (simp add: fsub_def)
  have dy: "fsub 0 0 = 0"
    by (simp add: fsub_def)
  have xx: "fmul 0 0 = 0"
    by (simp add: fmul_def)
  have yy: "fmul 0 0 = 0"
    by (simp add: fmul_def)
  have sum: "fadd 0 0 = 0"
    by (simp add: fadd_def)
  have root: "fsqrt 0 = 0"
    by (simp add: fsqrt_def)
  show ?thesis
    unfolding dist_xy_def Let_def dx dy xx yy sum root ..
qed

lemma d_0_0__a: "dist_xy 0 0 (82148737 / 131072) (156101261 / 262144) = 7604448826657019 / 8796093022208"
proof -
  have dx: "fsub 0 (82148737 / 131072) = - (82148737 / 131072)"
    unfolding fsub_def
    by (rule fl_eqI [where k = 9 and n = "- 5512908419104768"]) (simp_all add: pow2_def)
  have dy: "fsub 0 (156101261 / 262144) = - (156101261 / 262144)"
    unfolding fsub_def
    by (rule fl_eqI [where k = 9 and n = "- 5237889147338752"]) (simp_all add: pow2_def)
  have xx: "fmul (- (82148737 / 131072)) (- (82148737 / 131072)) = 6748414990695169 / 17179869184"
    unfolding fmul_def
    by (rule fl_eqI [where k = 18 and n = 6748414990695169]) (simp_all add: pow2_def)
  have yy: "fmul (- (156101261 / 262144)) (- (156101261 / 262144)) = 3045950460723765 / 8589934592"
    unfolding fmul_def
    by (rule fl_eqI [where k = 18 and n = 6091900921447530]) (simp_all add: pow2_def)
  have sum: "fadd (6748414990695169 / 17179869184) (3045950460723765 / 8589934592) = 3210078978035675 / 4294967296"
    unfolding fadd_def
    by (rule fl_eqI_tie [where k = 19 and n = 6420157956071350]) (simp_all add: pow2_def)
  have root: "fsqrt (3210078978035675 / 4294967296) = 7604448826657019 / 8796093022208"
    by (rule fl_sqrt_eqI [where k = 9 and n = 7604448826657019]) (simp_all add: pow2_def power2_eq_square)
  show ?thesis
    unfolding dist_xy_def Let_def dx dy xx yy sum root ..
qed

lemma d_0_0__b: "dist_xy 0 0 (101741443 / 131072) (99779651 / 262144) = 3802224413328509 / 4398046511104"
proof -
  have dx: "fsub 0 (101741443 / 131072) = - (101741443 / 131072)"
    unfolding fsub_def
    by (rule fl_eqI [where k = 9 and n = "- 6827752661450752"]) (simp_all add: pow2_def)
  have dy: "fsub 0 (99779651 / 262144) = - (99779651 / 262144)"
    unfolding fsub_def
    by (rule fl_eqI [where k = 8 and n = "- 6696099028926464"]) (simp_all add: pow2_def)
  have xx: "fmul (- (101741443 / 131072)) (- (101741443 / 131072)) = 1293915152965281 / 2147483648"
    unfolding fmul_def
    by (rule fl_eqI_tie [where k = 19 and n = 5175660611861124]) (simp_all add: pow2_def)
  have yy: "fmul (- (99779651 / 262144)) (- (99779651 / 262144)) = 1244497344210225 / 8589934592"
    unfolding fmul_def
    by (rule fl_eqI_tie [where k = 17 and n = 4977989376840900]) (simp_all add: pow2_def)
  have sum: "fadd (1293915152965281 / 2147483648) (1244497344210225 / 8589934592) = 6420157956071349 / 8589934592"
    unfolding fadd_def
    by (rule fl_eqI [where k = 19 and n = 6420157956071349]) (simp_all add: pow2_def)
  have root: "fsqrt (6420157956071349 / 8589934592) = 3802224413328509 / 4398046511104"
    by (rule fl_sqrt_eqI [where k = 9 and n = 7604448826657018]) (simp_all add: pow2_def power2_eq_square)
  show ?thesis
    unfolding dist_xy_def Let_def dx dy xx yy sum root ..
qed

lemmas dist_facts =
  d_1_0__0_0 d_1_0__10_0 d_0_0__1_0 d_0_0__9_0 d_9_0__10_0 d_9_0__0_0
  d_10_0__1_0 d_10_0__9_0 d_10_0__0_0 d_10_0__10_0 d_10_0__5_100 d_5_100__0_0
  d_5_100__10_0 d_0_0__10_0 d_0_0__5_100 d_5_0__0_0 d_5_0__10_0 d_0_0__4_c
  d_0_0__5_0 d_4_c__0_0 d_0_0__0_0 d_0_0__a d_0_0__b

section \<open>Properties of the dispatcher\<close>

lemma call_all_prefix: "\<exists>rest. array = snd (call_all run array ev L) @ rest"
proof (induction array arbitrary: L)
  case Nil
  then show ?case by simp
next
  case (Cons f array)
  show ?case
  proof (cases "run f ev L")
    case (Thrown L1)
    then show ?thesis by simp
  next
    case (Returned L1)
    from Cons [of L1] obtain rest where "array = snd (call_all run array ev L1) @ rest" ..
    with Returned show ?thesis
      by (cases "call_all run array ev L1") simp
  qed
qed

lemma call_all_returned:
  "returned (fst (call_all run array ev L)) \<Longrightarrow> snd (call_all run array ev L) = array"
proof (induction array arbitrary: L)
  case Nil
  then show ?case by simp
next
  case (Cons f array)
  show ?case
  proof (cases "run f ev L")
    case (Thrown L1)
    with Cons.prems show ?thesis by simp
  next
    case (Returned L1)
    with Cons.prems have "returned (fst (call_all run array ev L1))"
      by (cases "call_all run array ev L1") simp
    from Cons.IH [OF this] Returned show ?thesis
      by (cases "call_all run array ev L1") simp
  qed
qed

lemma call_all_effect:
  "fst (call_all run array ev L) = invoke_in_order run array ev (Returned L)"
proof (induction array arbitrary: L)
  case Nil
  then show ?case by simp
next
  case (Cons f array)
  show ?case
  proof (cases "run f ev L")
    case (Thrown L1)
    then show ?thesis by (cases array) simp_all
  next
    case (Returned L1)
    with Cons [of L1] show ?thesis
      by (cases "call_all run array ev L1") simp
  qed
qed

lemma dispatchEvent_prefix:
  "\<exists>rest. registered L (ev_type ev) = snd (dispatchEvent run L ev) @ rest"
proof (cases L)
  case None
  then show ?thesis by (simp add: dispatchEvent_def registered_def)
next
  case (Some m)
  show ?thesis
  proof (cases "m (ev_type ev)")
    case None
    with Some show ?thesis by (simp add: dispatchEvent_def registered_def)
  next
    case (Some arr)
    with \<open>L = Some m\<close> have "registered L (ev_type ev) = arr"
      and "dispatchEvent run L ev = call_all run arr ev L"
      by (simp_all add: dispatchEvent_def registered_def)
    then show ?thesis using call_all_prefix [of arr run ev L] by (simp only:)
  qed
qed

lemma dispatchEvent_returned:
  "returned (fst (dispatchEvent run L ev)) \<Longrightarrow>
   snd (dispatchEvent run L ev) = registered L (ev_type ev)"
  by (simp add: dispatchEvent_def registered_def call_all_returned split: option.splits)

lemma dispatchEvent_effect:
  "fst (dispatchEvent run L ev) =
     invoke_in_order run (registered L (ev_type ev)) ev (Returned L)"
  by (simp add: dispatchEvent_def registered_def call_all_effect split: option.splits)

lemma distinct_prefix: "xs = ys @ rest \<Longrightarrow> distinct xs \<Longrightarrow> distinct ys"
  by simp

lemma registered_add:
  "registered (addEventListener L t f) t =
     (if f \<in> set (registered L t) then registered L t else registered L t @ [f])"
  by (simp add: addEventListener_def registered_def Let_def indexOf_notin split: option.splits)

lemma registered_add_other:
  "t' \<noteq> t \<Longrightarrow> registered (addEventListener L t f) t' = registered L t'"
  by (simp add: addEventListener_def registered_def Let_def split: option.splits)

lemma registered_remove:
  "registered (removeEventListener L t f) t = remove1 f (registered L t)"
  by (auto simp: removeEventListener_def registered_def Let_def indexOf_notin splice1_indexOf remove1_idem
      split: option.splits)

lemma registered_remove_other:
  "t' \<noteq> t \<Longrightarrow> registered (removeEventListener L t f) t' = registered L t'"
  by (simp add: removeEventListener_def registered_def Let_def split: option.splits)

lemma distinct_apply_call:
  assumes "\<forall>t. distinct (registered L t)"
  shows "distinct (registered (apply_call L c) t)"
proof (cases c)
  case (Add t' f)
  then show ?thesis using assms
    by (cases "t = t'") (simp_all add: registered_add registered_add_other)
next
  case (Remove t' f)
  then show ?thesis using assms
    by (cases "t = t'") (simp_all add: registered_remove registered_remove_other)
next
  case Dispose
  then show ?thesis by (simp add: dispose_def registered_def)
qed

lemma distinct_foldl_calls:
  "\<forall>t. distinct (registered L t) \<Longrightarrow> distinct (registered (foldl apply_call L cs) t)"
  by (induction cs arbitrary: L t) (simp_all add: distinct_apply_call)

lemma distinct_after_calls: "distinct (registered (after_calls cs) t)"
  unfolding after_calls_def by (rule distinct_foldl_calls) (simp add: registered_def)

lemma add_registered_same:
  "hasEventListener L t f \<Longrightarrow> addEventListener L t f = L"
  by (auto simp: hasEventListener_def addEventListener_def Let_def map_upd_triv split: option.splits)

text \<open>
  Claim C9, as the code has it. The claim holds for a pass in which no listener throws
  and fails otherwise: \<open>dispatchEvent\<close> does not catch, so a listener that throws ends
  the pass and the listeners registered after it are not called.

  With the listeners 1 and 2 registered for \<open>wheel\<close>, in this order, and the
  listener 1 throwing, the pass calls the listener 1 only: the listener 2 is registered
  when the dispatch begins and is not invoked.
\<close>

theorem dispatch_stops_at_throw:
  "registered (after_calls [Add ''wheel'' 1, Add ''wheel'' 2]) ''wheel'' = [1, 2] \<and>
   snd (dispatchEvent throwing_first (after_calls [Add ''wheel'' 1, Add ''wheel'' 2]) wheel) = [1] \<and>
   registered (state_of (fst (dispatchEvent throwing_first
      (after_calls [Add ''wheel'' 1, Add ''wheel'' 2]) wheel))) ''log'' = []"
  by (simp add: dispatchEvent_def after_calls_def addEventListener_def registered_def
      throwing_first_def wheel_def)

text \<open>
  Claim C9, amended. Whatever the listeners do when they are called (\<open>run\<close> is
  arbitrary: they may add or remove listeners during the pass, and return or throw):
  the listeners called are an initial part of the array registered for the event's type
  when the dispatch begins, in the order of the array; the outcome of the pass is that
  of invoking the listeners of that array in order, each on the state the one before it
  has left, up to the first that throws; when the pass returns, the listeners called are
  exactly those of that array. The order of the array is the order of registration,
  since \<open>addEventListener\<close> puts a new listener at the end. A listener added during the
  pass is therefore not called in that pass.
\<close>

theorem dispatch_snapshot_in_registration_order:
  "(\<exists>rest. registered L (ev_type ev) = snd (dispatchEvent run L ev) @ rest) \<and>
   fst (dispatchEvent run L ev) =
     invoke_in_order run (registered L (ev_type ev)) ev (Returned L) \<and>
   (returned (fst (dispatchEvent run L ev)) \<longrightarrow>
      snd (dispatchEvent run L ev) = registered L (ev_type ev)) \<and>
   registered (addEventListener L t f) t =
     (if f \<in> set (registered L t) then registered L t else registered L t @ [f])"
  by (simp add: dispatchEvent_prefix dispatchEvent_effect dispatchEvent_returned registered_add)

text \<open>
  An instance: the listeners 1, 2 and 3 are registered for \<open>wheel\<close>; each of them logs
  its call, and the listener 1 registers the listener 4 for \<open>wheel\<close> when it is called.
  The pass returns and has called 1, 2 and 3; the log shows that these three have run,
  in this order, and that the listener 4, registered after the pass, has not.
\<close>

theorem dispatch_snapshot_witness:
  "returned (fst (dispatchEvent logging
      (after_calls [Add ''wheel'' 1, Add ''wheel'' 2, Add ''wheel'' 3]) wheel)) \<and>
   snd (dispatchEvent logging
      (after_calls [Add ''wheel'' 1, Add ''wheel'' 2, Add ''wheel'' 3]) wheel) = [1, 2, 3] \<and>
   registered (state_of (fst (dispatchEvent logging
      (after_calls [Add ''wheel'' 1, Add ''wheel'' 2, Add ''wheel'' 3]) wheel))) ''log'' =
     [101, 102, 103] \<and>
   registered (state_of (fst (dispatchEvent logging
      (after_calls [Add ''wheel'' 1, Add ''wheel'' 2, Add ''wheel'' 3]) wheel))) ''wheel'' =
     [1, 2, 3, 4]"
proof -
  let ?L = "after_calls [Add ''wheel'' 1, Add ''wheel'' 2, Add ''wheel'' 3]"
  have r: "registered ?L (ev_type wheel) = [1, 2, 3]"
    by (simp add: after_calls_def addEventListener_def registered_def wheel_def)
  note inst = dispatch_snapshot_in_registration_order [of ?L wheel logging]
  note eff = inst [THEN conjunct2, THEN conjunct1]
  have inv: "invoke_in_order logging [1, 2, 3] wheel (Returned ?L) =
     Returned (after_calls [Add ''wheel'' 1, Add ''wheel'' 2, Add ''wheel'' 3,
        Add ''log'' 101, Add ''wheel'' 4, Add ''log'' 102, Add ''log'' 103])"
    by (simp add: logging_def wheel_def after_calls_def Let_def)
  from eff r inv have f: "fst (dispatchEvent logging ?L wheel) =
     Returned (after_calls [Add ''wheel'' 1, Add ''wheel'' 2, Add ''wheel'' 3,
        Add ''log'' 101, Add ''wheel'' 4, Add ''log'' 102, Add ''log'' 103])"
    by simp
  then have ret: "returned (fst (dispatchEvent logging ?L wheel))" by simp
  from inst [THEN conjunct2, THEN conjunct2, THEN conjunct1] ret r have c: "snd (dispatchEvent logging ?L wheel) = [1, 2, 3]" by simp
  have l: "registered (after_calls [Add ''wheel'' 1, Add ''wheel'' 2, Add ''wheel'' 3,
        Add ''log'' 101, Add ''wheel'' 4, Add ''log'' 102, Add ''log'' 103]) ''log'' =
      [101, 102, 103]"
    by (simp add: after_calls_def addEventListener_def registered_def)
  have w: "registered (after_calls [Add ''wheel'' 1, Add ''wheel'' 2, Add ''wheel'' 3,
        Add ''log'' 101, Add ''wheel'' 4, Add ''log'' 102, Add ''log'' 103]) ''wheel'' =
      [1, 2, 3, 4]"
    by (simp add: after_calls_def addEventListener_def registered_def)
  from ret c f l w show ?thesis by simp
qed

text \<open>
  Claim C10. Adding a listener that is already registered for the type leaves
  \<open>_listeners\<close> as it is, so adding the same listener twice is the same as adding it
  once. After any sequence of \<open>addEventListener\<close>, \<open>removeEventListener\<close> and
  \<open>dispose\<close> calls on a new dispatcher, a dispatch calls no listener twice.
\<close>

theorem addEventListener_idempotent:
  "(hasEventListener L t f \<longrightarrow> addEventListener L t f = L) \<and>
   addEventListener (addEventListener L t f) t f = addEventListener L t f \<and>
   distinct (snd (dispatchEvent run (after_calls cs) ev))"
proof -
  have "hasEventListener (addEventListener L t f) t f"
    by (simp add: hasEventListener_def addEventListener_def Let_def indexOf_notin)
  then show ?thesis
    using dispatchEvent_prefix [of "after_calls cs" ev run]
      distinct_after_calls [of cs "ev_type ev"]
    by (auto simp: add_registered_same)
qed

theorem addEventListener_idempotent_witness:
  "hasEventListener (after_calls [Add ''pointerdown'' 7]) ''pointerdown'' 7 \<and>
   addEventListener (after_calls [Add ''pointerdown'' 7]) ''pointerdown'' 7 =
     after_calls [Add ''pointerdown'' 7] \<and>
   registered (after_calls [Add ''pointerdown'' 7, Add ''pointerdown'' 7]) ''pointerdown'' = [7]"
proof -
  have h: "hasEventListener (after_calls [Add ''pointerdown'' 7]) ''pointerdown'' 7"
    by (simp add: after_calls_def hasEventListener_def addEventListener_def)
  with addEventListener_idempotent [of "after_calls [Add ''pointerdown'' 7]" "''pointerdown''" 7]
  have e: "addEventListener (after_calls [Add ''pointerdown'' 7]) ''pointerdown'' 7 =
     after_calls [Add ''pointerdown'' 7]"
    by blast
  have "after_calls [Add ''pointerdown'' 7, Add ''pointerdown'' 7] =
     addEventListener (after_calls [Add ''pointerdown'' 7]) ''pointerdown'' 7"
    by (simp add: after_calls_def)
  with e have "registered (after_calls [Add ''pointerdown'' 7, Add ''pointerdown'' 7]) ''pointerdown'' =
     registered (after_calls [Add ''pointerdown'' 7]) ''pointerdown''"
    by simp
  also have "\<dots> = [7]"
    by (simp add: after_calls_def addEventListener_def registered_def)
  finally show ?thesis using h e by simp
qed

section \<open>Properties of \<open>getClosest\<close>\<close>

lemma getClosest_loop_Cons:
  "getClosest_loop h a (p # ps) cd c =
     (if less_dist (computed_dist h a p) cd
      then getClosest_loop h a ps (Some (computed_dist h a p)) (Some p)
      else getClosest_loop h a ps cd c)"
  by (simp add: computed_dist_def dist_xy_def Let_def)

lemma less_dist_trans: "e < d \<Longrightarrow> less_dist d cd \<Longrightarrow> less_dist e cd"
  by (cases cd) auto

lemma less_dist_below: "less_dist e cd \<Longrightarrow> \<not> less_dist d cd \<Longrightarrow> e < d"
  by (cases cd) auto

lemma getClosest_loop_char:
  "(getClosest_loop h a ps cd c = c \<and> (\<forall>q \<in> set ps. \<not> less_dist (computed_dist h a q) cd)) \<or>
   (\<exists>i < length ps. getClosest_loop h a ps cd c = Some (ps ! i) \<and>
      less_dist (computed_dist h a (ps ! i)) cd \<and>
      (\<forall>j < length ps. computed_dist h a (ps ! i) \<le> computed_dist h a (ps ! j)) \<and>
      (\<forall>j < i. computed_dist h a (ps ! i) < computed_dist h a (ps ! j)))"
proof (induction ps arbitrary: cd c)
  case Nil
  then show ?case by simp
next
  case (Cons p ps)
  let ?d = "computed_dist h a p"
  show ?case
  proof (cases "less_dist ?d cd")
    case True
    then have res: "getClosest_loop h a (p # ps) cd c = getClosest_loop h a ps (Some ?d) (Some p)"
      by (simp only: getClosest_loop_Cons if_True)
    from Cons.IH [of "Some ?d" "Some p"] show ?thesis
    proof (elim disjE conjE exE)
      assume r: "getClosest_loop h a ps (Some ?d) (Some p) = Some p"
        and none: "\<forall>q\<in>set ps. \<not> less_dist (computed_dist h a q) (Some ?d)"
      have "\<forall>j < length (p # ps). ?d \<le> computed_dist h a ((p # ps) ! j)"
      proof (intro allI impI)
        fix j assume "j < length (p # ps)"
        then show "?d \<le> computed_dist h a ((p # ps) ! j)"
          using none by (cases j) (auto simp: not_less)
      qed
      then have "0 < length (p # ps) \<and> getClosest_loop h a (p # ps) cd c = Some ((p # ps) ! 0) \<and>
          less_dist (computed_dist h a ((p # ps) ! 0)) cd \<and>
          (\<forall>j < length (p # ps). computed_dist h a ((p # ps) ! 0) \<le> computed_dist h a ((p # ps) ! j)) \<and>
          (\<forall>j < 0. computed_dist h a ((p # ps) ! 0) < computed_dist h a ((p # ps) ! j))"
        using res r True by simp
      then show ?thesis by blast
    next
      fix i
      assume i: "i < length ps"
        and r: "getClosest_loop h a ps (Some ?d) (Some p) = Some (ps ! i)"
        and lt: "less_dist (computed_dist h a (ps ! i)) (Some ?d)"
        and mn: "\<forall>j<length ps. computed_dist h a (ps ! i) \<le> computed_dist h a (ps ! j)"
        and st: "\<forall>j<i. computed_dist h a (ps ! i) < computed_dist h a (ps ! j)"
      from lt have lt': "computed_dist h a (ps ! i) < ?d" by simp
      have a1: "less_dist (computed_dist h a ((p # ps) ! Suc i)) cd"
        using less_dist_trans [OF lt' True] by simp
      have a2: "\<forall>j < length (p # ps). computed_dist h a ((p # ps) ! Suc i) \<le> computed_dist h a ((p # ps) ! j)"
      proof (intro allI impI)
        fix j assume "j < length (p # ps)"
        then show "computed_dist h a ((p # ps) ! Suc i) \<le> computed_dist h a ((p # ps) ! j)"
          using mn lt' by (cases j) auto
      qed
      have a3: "\<forall>j < Suc i. computed_dist h a ((p # ps) ! Suc i) < computed_dist h a ((p # ps) ! j)"
      proof (intro allI impI)
        fix j assume "j < Suc i"
        then show "computed_dist h a ((p # ps) ! Suc i) < computed_dist h a ((p # ps) ! j)"
          using st lt' by (cases j) auto
      qed
      have "Suc i < length (p # ps) \<and> getClosest_loop h a (p # ps) cd c = Some ((p # ps) ! Suc i)"
        using i res r by simp
      with a1 a2 a3 show ?thesis by blast
    qed
  next
    case False
    then have res: "getClosest_loop h a (p # ps) cd c = getClosest_loop h a ps cd c"
      by (simp only: getClosest_loop_Cons if_False)
    from Cons.IH [of cd c] show ?thesis
    proof (elim disjE conjE exE)
      assume "getClosest_loop h a ps cd c = c"
        and "\<forall>q\<in>set ps. \<not> less_dist (computed_dist h a q) cd"
      then show ?thesis using res False by simp
    next
      fix i
      assume i: "i < length ps"
        and r: "getClosest_loop h a ps cd c = Some (ps ! i)"
        and lt: "less_dist (computed_dist h a (ps ! i)) cd"
        and mn: "\<forall>j<length ps. computed_dist h a (ps ! i) \<le> computed_dist h a (ps ! j)"
        and st: "\<forall>j<i. computed_dist h a (ps ! i) < computed_dist h a (ps ! j)"
      have lt': "computed_dist h a (ps ! i) < ?d"
        using less_dist_below [OF lt False] .
      have a1: "less_dist (computed_dist h a ((p # ps) ! Suc i)) cd"
        using lt by simp
      have a2: "\<forall>j < length (p # ps). computed_dist h a ((p # ps) ! Suc i) \<le> computed_dist h a ((p # ps) ! j)"
      proof (intro allI impI)
        fix j assume "j < length (p # ps)"
        then show "computed_dist h a ((p # ps) ! Suc i) \<le> computed_dist h a ((p # ps) ! j)"
          using mn lt' by (cases j) auto
      qed
      have a3: "\<forall>j < Suc i. computed_dist h a ((p # ps) ! Suc i) < computed_dist h a ((p # ps) ! j)"
      proof (intro allI impI)
        fix j assume "j < Suc i"
        then show "computed_dist h a ((p # ps) ! Suc i) < computed_dist h a ((p # ps) ! j)"
          using st lt' by (cases j) auto
      qed
      have "Suc i < length (p # ps) \<and> getClosest_loop h a (p # ps) cd c = Some ((p # ps) ! Suc i)"
        using i res r by simp
      with a1 a2 a3 show ?thesis by blast
    qed
  qed
qed

lemma getClosest_first_min:
  assumes "ps \<noteq> []"
  shows "\<exists>i < length ps. getClosest h a ps = Some (ps ! i) \<and>
      (\<forall>j < length ps. computed_dist h a (ps ! i) \<le> computed_dist h a (ps ! j)) \<and>
      (\<forall>j < i. computed_dist h a (ps ! i) < computed_dist h a (ps ! j))"
proof -
  from assms obtain q where "q \<in> set ps" by (cases ps) auto
  then have "\<not> (\<forall>q \<in> set ps. \<not> less_dist (computed_dist h a q) None)" by auto
  with getClosest_loop_char [of h a ps None None] show ?thesis
    unfolding getClosest_def by blast
qed

lemma getClosest_Nil: "getClosest h a [] = None"
  by (simp add: getClosest_def)

lemma getClosest_Some_iff: "(\<exists>q. getClosest h a ps = Some q) \<longleftrightarrow> ps \<noteq> []"
  using getClosest_first_min [of ps h a] by (cases "ps = []") (auto simp: getClosest_Nil)

lemma getClosest_mem: "getClosest h a ps = Some q \<Longrightarrow> q \<in> set ps"
  using getClosest_first_min [of ps h a] by (cases "ps = []") (auto simp: getClosest_Nil)

lemma getClosest_min: "getClosest h a ps = Some q \<Longrightarrow> r \<in> set ps \<Longrightarrow> computed_dist h a q \<le> computed_dist h a r"
  using getClosest_first_min [of ps h a] by (cases "ps = []") (auto simp: getClosest_Nil in_set_conv_nth)

lemma getClosest_loop_pos:
  "\<forall>r. x (h' r) = x (h r) \<and> y (h' r) = y (h r) \<Longrightarrow>
   getClosest_loop h' a ps cd c = getClosest_loop h a ps cd c"
  by (induction ps arbitrary: cd c) (simp_all add: Let_def)

lemma getClosest_pos:
  "\<forall>r. x (h' r) = x (h r) \<and> y (h' r) = y (h r) \<Longrightarrow> getClosest h' a ps = getClosest h a ps"
  by (simp add: getClosest_def getClosest_loop_pos)

lemma computed_dist_pos:
  "\<forall>r. x (h' r) = x (h r) \<and> y (h' r) = y (h r) \<Longrightarrow> computed_dist h' a b = computed_dist h a b"
  by (simp add: computed_dist_def)

lemma euclid_pos:
  "\<forall>r. x (h' r) = x (h r) \<and> y (h' r) = y (h r) \<Longrightarrow> euclid h' a b = euclid h a b"
  by (simp add: euclid_def)

section \<open>Properties of the capture loop\<close>

lemma capture_char:
  "capture tgt ty pty btns ev rect ts pid H this = (H', this') \<Longrightarrow>
   this' = this @ [fresh H ..< fresh H'] \<and> fresh H \<le> fresh H' \<and>
   (\<forall>r < fresh H. objs H' r = objs H r) \<and>
   (\<forall>r. fresh H \<le> r \<and> r < fresh H' \<longrightarrow>
        (\<exists>t \<in> set ts. \<exists>k. objs H' r = sample_pointer tgt ty pty btns ev rect k t))"
proof (induction ts arbitrary: pid H this)
  case Nil
  then show ?case by auto
next
  case (Cons t ts)
  show ?case
  proof (cases "isTouchInTarget t tgt \<or> e_touches ev = None")
    case False
    with Cons.prems have "capture tgt ty pty btns ev rect ts pid H this = (H', this')"
      by simp
    from Cons.IH [OF this] show ?thesis by auto
  next
    case True
    let ?p = "sample_pointer tgt ty pty btns ev rect pid t"
    let ?H1 = "\<lparr> objs = (objs H)(fresh H := ?p), fresh = Suc (fresh H) \<rparr>"
    from True Cons.prems
    have "capture tgt ty pty btns ev rect ts (pid + 1) ?H1 (this @ [fresh H]) = (H', this')"
      by (simp add: Let_def)
    from Cons.IH [OF this]
    have a: "this' = (this @ [fresh H]) @ [Suc (fresh H) ..< fresh H']"
      and b: "Suc (fresh H) \<le> fresh H'"
      and c: "\<forall>r < Suc (fresh H). objs H' r = objs ?H1 r"
      and d: "\<forall>r. Suc (fresh H) \<le> r \<and> r < fresh H' \<longrightarrow>
                (\<exists>t \<in> set ts. \<exists>k. objs H' r = sample_pointer tgt ty pty btns ev rect k t)"
      by simp_all
    from b have "[fresh H ..< fresh H'] = fresh H # [Suc (fresh H) ..< fresh H']"
      by (simp add: upt_conv_Cons)
    with a have 1: "this' = this @ [fresh H ..< fresh H']" by simp
    from b have 2: "fresh H \<le> fresh H'" by simp
    from c have 3: "\<forall>r < fresh H. objs H' r = objs H r" by simp
    have 4: "\<forall>r. fresh H \<le> r \<and> r < fresh H' \<longrightarrow>
                (\<exists>t \<in> set (t # ts). \<exists>k. objs H' r = sample_pointer tgt ty pty btns ev rect k t)"
    proof (intro allI impI)
      fix r assume r: "fresh H \<le> r \<and> r < fresh H'"
      show "\<exists>t \<in> set (t # ts). \<exists>k. objs H' r = sample_pointer tgt ty pty btns ev rect k t"
      proof (cases "r = fresh H")
        case True
        with c have "objs H' r = ?p" by simp
        then show ?thesis by auto
      next
        case False
        with r have "Suc (fresh H) \<le> r \<and> r < fresh H'" by simp
        with d show ?thesis by auto
      qed
    qed
    from 1 2 3 4 show ?thesis by blast
  qed
qed

section \<open>Properties of the matching loop\<close>

lemma Pointer_update_pos [simp]:
  "x (Pointer_update a b) = x a" "y (Pointer_update a b) = y a"
  by (simp_all add: Pointer_update_def)

lemma rebase_all_pos: "x (rebase_all h P r) = x (h r) \<and> y (rebase_all h P r) = y (h r)"
proof (induction P arbitrary: h)
  case Nil
  then show ?case by simp
next
  case (Cons m P)
  obtain c p where m: "m = (c, p)" by (cases m)
  let ?h1 = "h(c := Pointer_update (h c) (h p))"
  have "x (?h1 r) = x (h r) \<and> y (?h1 r) = y (h r)" by simp
  with Cons [of ?h1] have "x (rebase_all ?h1 P r) = x (h r) \<and> y (rebase_all ?h1 P r) = y (h r)"
    by (simp add: fun_upd_def)
  then show ?case unfolding m by (simp del: fun_upd_apply)
qed

lemma pairing_pos:
  assumes "\<forall>r. x (h' r) = x (h r) \<and> y (h' r) = y (h r)"
  shows "pairing h' this rest prev = pairing h this rest prev"
  by (induction rest arbitrary: prev)
    (simp_all add: getClosest_pos [OF assms] split: option.splits)

lemma match_loop_eq:
  "match_loop this rest h prev ms =
     Inr (rebase_all h (pairing h this rest prev),
          consume_all prev (pairing h this rest prev),
          ms @ pairing h this rest prev)"
proof (induction rest arbitrary: h prev ms)
  case Nil
  then show ?case by simp
next
  case (Cons c rest)
  show ?case
  proof (cases "prev = []")
    case True
    then show ?thesis using Cons [of h prev ms] by simp
  next
    case False
    then obtain p where p: "getClosest h c prev = Some p"
      using getClosest_Some_iff [of h c prev] by blast
    then have mem: "p \<in> set prev" by (rule getClosest_mem)
    show ?thesis
    proof (cases "getClosest h p this = Some c")
      case False
      with \<open>prev \<noteq> []\<close> p show ?thesis using Cons [of h prev ms] by simp
    next
      case True
      let ?h1 = "h(c := Pointer_update (h c) (h p))"
      let ?P1 = "pairing h this rest (remove1 p prev)"
      have pos: "\<forall>r. x (?h1 r) = x (h r) \<and> y (?h1 r) = y (h r)" by simp
      have P: "pairing h this (c # rest) prev = (c, p) # ?P1"
        using True \<open>prev \<noteq> []\<close> p by simp
      have "match_loop this (c # rest) h prev ms =
              match_loop this rest ?h1 (remove1 p prev) (ms @ [(c, p)])"
        using True \<open>prev \<noteq> []\<close> p mem by (simp add: splice1_indexOf)
      also have "\<dots> = Inr (rebase_all ?h1 (pairing ?h1 this rest (remove1 p prev)),
          consume_all (remove1 p prev) (pairing ?h1 this rest (remove1 p prev)),
          (ms @ [(c, p)]) @ pairing ?h1 this rest (remove1 p prev))"
        using Cons [of ?h1 "remove1 p prev" "ms @ [(c, p)]"] .
      also have "pairing ?h1 this rest (remove1 p prev) = ?P1"
        by (rule pairing_pos [OF pos])
      finally show ?thesis
        unfolding P by (simp del: fun_upd_apply)
    qed
  qed
qed

lemma pairing_fst: "fst ` set (pairing h this rest prev) \<subseteq> set rest"
  by (induction rest arbitrary: prev) (auto split: option.splits if_splits)

lemma pairing_snd: "snd ` set (pairing h this rest prev) \<subseteq> set prev"
proof (induction rest arbitrary: prev)
  case Nil
  then show ?case by simp
next
  case (Cons c rest)
  show ?case
  proof (cases "prev \<noteq> [] \<and> (\<exists>p. getClosest h c prev = Some p \<and> getClosest h p this = Some c)")
    case False
    then show ?thesis using Cons [of prev] by (auto split: option.splits)
  next
    case True
    then obtain p where p: "getClosest h c prev = Some p" "getClosest h p this = Some c" by blast
    then have mem: "p \<in> set prev" by (simp add: getClosest_mem)
    have "snd ` set (pairing h this rest (remove1 p prev)) \<subseteq> set prev"
      using Cons [of "remove1 p prev"] set_remove1_subset [of p prev] by blast
    with True p mem show ?thesis by simp
  qed
qed

lemma pairing_fst_distinct: "distinct rest \<Longrightarrow> distinct (map fst (pairing h this rest prev))"
proof (induction rest arbitrary: prev)
  case Nil
  then show ?case by simp
next
  case (Cons c rest)
  then have "\<And>prev. c \<notin> fst ` set (pairing h this rest prev)"
    using pairing_fst [of h this rest] by auto
  with Cons show ?case by (auto split: option.splits)
qed

lemma consume_all_set:
  "distinct prev \<Longrightarrow>
   set (consume_all prev P) = set prev - snd ` set P \<and> distinct (consume_all prev P)"
proof (induction P arbitrary: prev)
  case Nil
  then show ?case by simp
next
  case (Cons m P)
  obtain c p where m: "m = (c, p)" by (cases m)
  from Cons.prems have "distinct (remove1 p prev)" by simp
  from Cons.IH [OF this] Cons.prems show ?case
    unfolding m by auto
qed

lemma rebase_all_other: "r \<notin> fst ` set P \<Longrightarrow> rebase_all h P r = h r"
proof (induction P arbitrary: h)
  case Nil
  then show ?case by simp
next
  case (Cons m P)
  obtain c p where m: "m = (c, p)" by (cases m)
  let ?h1 = "h(c := Pointer_update (h c) (h p))"
  from Cons.prems m have ne: "r \<noteq> c" and "r \<notin> fst ` set P" by auto
  then have "rebase_all ?h1 P r = ?h1 r" using Cons.IH [of ?h1] by (simp add: fun_upd_def)
  with ne have "rebase_all ?h1 P r = h r" by (simp add: fun_upd_def)
  then show ?case unfolding m by (simp del: fun_upd_apply)
qed

lemma rebase_all_matched:
  assumes "distinct (map fst P)" and "(c, p) \<in> set P" and "snd ` set P \<inter> fst ` set P = {}"
  shows "rebase_all h P c = Pointer_update (h c) (h p)"
  using assms
proof (induction P arbitrary: h)
  case Nil
  then show ?case by simp
next
  case (Cons m P)
  obtain c0 p0 where m: "m = (c0, p0)" by (cases m)
  let ?h1 = "h(c0 := Pointer_update (h c0) (h p0))"
  have step: "rebase_all h (m # P) c = rebase_all ?h1 P c"
    unfolding m by (simp del: fun_upd_apply)
  show ?case
  proof (cases "(c0, p0) = (c, p)")
    case True
    with Cons.prems m have "c \<notin> fst ` set P" by auto
    then have "rebase_all ?h1 P c = ?h1 c" by (rule rebase_all_other)
    with True show ?thesis unfolding step by (simp add: fun_upd_def)
  next
    case False
    with Cons.prems m have in_P: "(c, p) \<in> set P" by auto
    then have "c \<in> fst ` set P" and "p \<in> snd ` set P" by force+
    with Cons.prems m have ne: "c \<noteq> c0" "p \<noteq> c0" by auto
    have "distinct (map fst P)" and "snd ` set P \<inter> fst ` set P = {}"
      using Cons.prems by auto
    with in_P have "rebase_all ?h1 P c = Pointer_update (?h1 c) (?h1 p)"
      using Cons.IH [of ?h1] by (simp add: fun_upd_def)
    with ne show ?thesis unfolding step by (simp add: fun_upd_def)
  qed
qed

lemma pairing_mutual:
  assumes "distinct prev" and "pairing h this rest prev = n1 @ (c, p) # n2"
  shows "c \<in> set rest \<and> p \<in> set prev - snd ` set n1 \<and>
         getClosest h p this = Some c \<and>
         (\<forall>q \<in> set prev - snd ` set n1. computed_dist h c p \<le> computed_dist h c q)"
  using assms
proof (induction rest arbitrary: prev n1)
  case Nil
  then show ?case by simp
next
  case (Cons c0 rest)
  show ?case
  proof (cases "prev \<noteq> [] \<and> (\<exists>p0. getClosest h c0 prev = Some p0 \<and> getClosest h p0 this = Some c0)")
    case False
    then have "pairing h this (c0 # rest) prev = pairing h this rest prev \<or>
               pairing h this (c0 # rest) prev = []"
      by (auto split: option.splits)
    with Cons.prems have "pairing h this rest prev = n1 @ (c, p) # n2" by auto
    from Cons.IH [OF Cons.prems(1) this] show ?thesis by auto
  next
    case True
    then obtain p0 where p0: "getClosest h c0 prev = Some p0" "getClosest h p0 this = Some c0"
      and ne: "prev \<noteq> []" by blast
    have mem: "p0 \<in> set prev" using p0(1) by (rule getClosest_mem)
    have P: "pairing h this (c0 # rest) prev = (c0, p0) # pairing h this rest (remove1 p0 prev)"
      using p0 ne by simp
    show ?thesis
    proof (cases n1)
      case Nil
      with P Cons.prems have "c = c0" "p = p0" by auto
      with Nil p0 mem show ?thesis by (auto intro: getClosest_min)
    next
      case (Cons m n1')
      with P Cons.prems have m: "m = (c0, p0)"
        and rest: "pairing h this rest (remove1 p0 prev) = n1' @ (c, p) # n2" by auto
      have d: "distinct (remove1 p0 prev)" using Cons.prems(1) by simp
      have s: "set (remove1 p0 prev) - snd ` set n1' = set prev - snd ` set n1"
        using Cons.prems(1) Cons m by auto
      from Cons.IH [OF d rest] show ?thesis unfolding s by auto
    qed
  qed
qed

section \<open>What one call of \<open>update\<close> does\<close>

lemma update_remove:
  "PointerArray_update (H, A) ev ty True rect =
     Inr (H, A\<lparr> items := [], previous := [], removed := rev (items A) \<rparr>, [])"
  by (simp add: PointerArray_update_def Let_def drain_eq del: drain.simps)

lemma update_capture:
  assumes "capture (pa_target A) ty (case e_touches ev of Some ts \<Rightarrow> ''touch'' | None \<Rightarrow> ''mouse'')
             (buttons_of ev) ev rect
             (case e_touches ev of Some ts \<Rightarrow> ts
              | None \<Rightarrow> [\<lparr> t_target = e_target ev, t_clientX = e_clientX ev, t_clientY = e_clientY ev \<rparr>])
             0 H [] = (H1, this)"
  shows "PointerArray_update (H, A) ev ty False rect =
     Inr (H1\<lparr> objs := rebase_all (objs H1) (pairing (objs H1) this this (items A)) \<rparr>,
          A\<lparr> items := this, previous := [],
             removed := rev (consume_all (items A) (pairing (objs H1) this this (items A))) \<rparr>,
          pairing (objs H1) this this (items A))"
  using assms by (simp add: PointerArray_update_def Let_def buttons_of_def match_loop_eq drain_eq
      del: drain.simps match_loop.simps)

lemma update_False:
  "\<exists>H1 this pty.
     this = [fresh H ..< fresh H1] \<and> fresh H \<le> fresh H1 \<and>
     (\<forall>r < fresh H. objs H1 r = objs H r) \<and>
     (\<forall>r. fresh H \<le> r \<and> r < fresh H1 \<longrightarrow>
        (\<exists>t k. objs H1 r = sample_pointer (pa_target A) ty pty (buttons_of ev) ev rect k t)) \<and>
     PointerArray_update (H, A) ev ty False rect =
       Inr (H1\<lparr> objs := rebase_all (objs H1) (pairing (objs H1) this this (items A)) \<rparr>,
            A\<lparr> items := this, previous := [],
               removed := rev (consume_all (items A) (pairing (objs H1) this this (items A))) \<rparr>,
            pairing (objs H1) this this (items A))"
proof -
  let ?pty = "case e_touches ev of Some ts \<Rightarrow> ''touch'' | None \<Rightarrow> ''mouse''"
  let ?ts = "case e_touches ev of Some ts \<Rightarrow> ts
     | None \<Rightarrow> [\<lparr> t_target = e_target ev, t_clientX = e_clientX ev, t_clientY = e_clientY ev \<rparr>]"
  obtain H1 this where cap:
    "capture (pa_target A) ty ?pty (buttons_of ev) ev rect ?ts 0 H [] = (H1, this)"
    by (cases "capture (pa_target A) ty ?pty (buttons_of ev) ev rect ?ts 0 H []")
  from capture_char [OF cap]
  have items_eq: "this = [] @ [fresh H ..< fresh H1]" and le: "fresh H \<le> fresh H1"
    and old: "\<forall>r < fresh H. objs H1 r = objs H r"
    and new: "\<forall>r. fresh H \<le> r \<and> r < fresh H1 \<longrightarrow>
       (\<exists>t \<in> set ?ts. \<exists>k. objs H1 r = sample_pointer (pa_target A) ty ?pty (buttons_of ev) ev rect k t)"
    by blast+
  from new have new': "\<forall>r. fresh H \<le> r \<and> r < fresh H1 \<longrightarrow>
       (\<exists>t k. objs H1 r = sample_pointer (pa_target A) ty ?pty (buttons_of ev) ev rect k t)"
    by blast
  from items_eq have items_eq': "this = [fresh H ..< fresh H1]"
    by (simp only: append_Nil)
  note upd = update_capture [OF cap]
  show ?thesis
    apply (rule exI [of _ H1])
    apply (rule exI [of _ this])
    apply (rule exI [of _ ?pty])
    apply (intro conjI)
        apply (rule items_eq')
       apply (rule le)
      apply (rule old)
     apply (rule new')
    apply (rule upd)
    done
qed

lemma sample_pointer_button:
  "button (sample_pointer tgt ty pty b ev rect k t) = button_code (ordinal_of_bitmask b) \<and>
   buttons (sample_pointer tgt ty pty b ev rect k t) = b"
  by (simp add: sample_pointer_def Pointer_new_def ordinal_of_bitmask_def Let_def)

lemma sample_pointer_kinematics:
  "movementX (sample_pointer tgt ty pty b ev rect k t) = 0 \<and>
   movementY (sample_pointer tgt ty pty b ev rect k t) = 0 \<and>
   distanceX (sample_pointer tgt ty pty b ev rect k t) = 0 \<and>
   distanceY (sample_pointer tgt ty pty b ev rect k t) = 0 \<and>
   startX (sample_pointer tgt ty pty b ev rect k t) = x (sample_pointer tgt ty pty b ev rect k t) \<and>
   startY (sample_pointer tgt ty pty b ev rect k t) = y (sample_pointer tgt ty pty b ev rect k t)"
  by (simp add: sample_pointer_def Pointer_new_def Let_def)

lemma Pointer_update_fields:
  "pointerID (Pointer_update a b) = pointerID b \<and>
   startX (Pointer_update a b) = startX b \<and> startY (Pointer_update a b) = startY b \<and>
   movementX (Pointer_update a b) = fsub (x a) (x b) \<and>
   movementY (Pointer_update a b) = fsub (y a) (y b) \<and>
   distanceX (Pointer_update a b) = fsub (x a) (startX b) \<and>
   distanceY (Pointer_update a b) = fsub (y a) (startY b) \<and>
   button (Pointer_update a b) = button a \<and> buttons (Pointer_update a b) = buttons a"
  by (simp add: Pointer_update_def Let_def)

lemma rebase_all_button:
  "button (rebase_all h P r) = button (h r) \<and> buttons (rebase_all h P r) = buttons (h r)"
proof (induction P arbitrary: h)
  case Nil
  then show ?case by simp
next
  case (Cons m P)
  obtain c p where m: "m = (c, p)" by (cases m)
  let ?h1 = "h(c := Pointer_update (h c) (h p))"
  have "button (?h1 r) = button (h r) \<and> buttons (?h1 r) = buttons (h r)"
    by (simp add: Pointer_update_fields)
  with Cons [of ?h1]
  have "button (rebase_all ?h1 P r) = button (h r) \<and> buttons (rebase_all ?h1 P r) = buttons (h r)"
    by (simp add: fun_upd_def)
  then show ?case unfolding m by (simp del: fun_upd_apply)
qed

lemma wf_stateD:
  "wf_state (H, A) \<Longrightarrow> distinct (items A) \<and> (\<forall>r \<in> set (items A). r < fresh H)"
  by (simp add: wf_state_def list_all_iff)

lemma update_False_wf:
  assumes wf: "wf_state (H, A)"
  shows "\<exists>H1 this pty P.
     P = pairing (objs H1) this this (items A) \<and>
     this = [fresh H ..< fresh H1] \<and> fresh H \<le> fresh H1 \<and>
     (\<forall>r < fresh H. objs H1 r = objs H r) \<and>
     (\<forall>r. fresh H \<le> r \<and> r < fresh H1 \<longrightarrow>
        (\<exists>t k. objs H1 r = sample_pointer (pa_target A) ty pty (buttons_of ev) ev rect k t)) \<and>
     PointerArray_update (H, A) ev ty False rect =
       Inr (H1\<lparr> objs := rebase_all (objs H1) P \<rparr>,
            A\<lparr> items := this, previous := [], removed := rev (consume_all (items A) P) \<rparr>, P) \<and>
     fst ` set P \<subseteq> set this \<and> snd ` set P \<subseteq> set (items A) \<and>
     distinct (map fst P) \<and> snd ` set P \<inter> fst ` set P = {} \<and>
     set this \<inter> set (items A) = {}"
proof -
  from update_False [of H A ty ev rect] obtain H1 this pty where
    items_eq: "this = [fresh H ..< fresh H1]" and le: "fresh H \<le> fresh H1"
    and old: "\<forall>r < fresh H. objs H1 r = objs H r"
    and new: "\<forall>r. fresh H \<le> r \<and> r < fresh H1 \<longrightarrow>
        (\<exists>t k. objs H1 r = sample_pointer (pa_target A) ty pty (buttons_of ev) ev rect k t)"
    and upd: "PointerArray_update (H, A) ev ty False rect =
       Inr (H1\<lparr> objs := rebase_all (objs H1) (pairing (objs H1) this this (items A)) \<rparr>,
            A\<lparr> items := this, previous := [],
               removed := rev (consume_all (items A) (pairing (objs H1) this this (items A))) \<rparr>,
            pairing (objs H1) this this (items A))"
    by blast
  let ?P = "pairing (objs H1) this this (items A)"
  from wf have below: "\<forall>r \<in> set (items A). r < fresh H" by (simp add: wf_stateD)
  have f: "fst ` set ?P \<subseteq> set this" by (rule pairing_fst)
  have s: "snd ` set ?P \<subseteq> set (items A)" by (rule pairing_snd)
  have "distinct this" using items_eq by simp
  then have d: "distinct (map fst ?P)" by (rule pairing_fst_distinct)
  have disj: "set this \<inter> set (items A) = {}" using items_eq below by auto
  with f s have disj': "snd ` set ?P \<inter> fst ` set ?P = {}" by blast
  show ?thesis
    apply (rule exI [of _ H1])
    apply (rule exI [of _ this])
    apply (rule exI [of _ pty])
    apply (rule exI [of _ ?P])
    apply (intro conjI)
              apply (rule refl)
             apply (rule items_eq)
            apply (rule le)
           apply (rule old)
          apply (rule new)
         apply (rule upd)
        apply (rule f)
       apply (rule s)
      apply (rule d)
     apply (rule disj')
    apply (rule disj)
    done
qed

section \<open>The scenario, evaluated\<close>

text \<open>
  The examples are evaluated with the computed distances proved above in place of the
  arithmetic of \<open>getClosest\<close>.
\<close>

lemma fl_next_above_3:
  "fl (6755399441055745 / 2251799813685248) = 6755399441055745 / 2251799813685248"
  by (rule fl_eqI [where k = 1 and n = 6755399441055745]) (simp_all add: pow2_def)

lemmas scenario_defs =
  PointerArray_update_def initial_def two_contacts_def near_contacts_def next_above_3_def
  PointerArray_new_def touch_event_def
  touch_at_def mouse_event_def rect0_def isTouchInTarget_def div1_def sample_pointer_def
  Pointer_new_def getClosest_def Pointer_update_def splice1_def Let_def
  getClosest_loop_Cons computed_dist_def fsub_def fl_next_above_3 dist_facts

lemma wf_initial: "wf_state initial"
  by (simp add: wf_state_def initial_def PointerArray_new_def)

lemma wf_two_contacts: "wf_state two_contacts"
  by (simp add: wf_state_def two_contacts_def)

lemma two_contacts_frame:
  "PointerArray_update initial (touch_event [touch_at 0 0, touch_at 10 0]) ''pointerdown'' False rect0 =
     Inr (fst two_contacts, snd two_contacts, [])"
  by (simp add: PointerArray_update_def initial_def two_contacts_def PointerArray_new_def
       touch_event_def isTouchInTarget_def touch_at_def div1_def Let_def)

lemma wf_near_contacts: "wf_state near_contacts"
  by (simp add: wf_state_def near_contacts_def)

lemma near_contacts_frame:
  "PointerArray_update initial (touch_event [touch_at 4 next_above_3, touch_at 5 0])
     ''pointerdown'' False rect0 = Inr (fst near_contacts, snd near_contacts, [])"
  by (simp add: PointerArray_update_def initial_def near_contacts_def PointerArray_new_def
       touch_event_def isTouchInTarget_def touch_at_def div1_def Let_def)

lemma frame_near:
  "PointerArray_update near_contacts (touch_event [touch_at 0 0]) ''pointermove'' False rect0 =
     Inr (fst near_after, snd near_after, [(2, 0)])"
  by (simp add: scenario_defs near_after_def del: getClosest_loop.simps(2))

lemma near_after_positions:
  "x (objs (fst near_after) 0) = 4"
  "y (objs (fst near_after) 0) = 6755399441055745 / 2251799813685248"
  "x (objs (fst near_after) 1) = 5" "y (objs (fst near_after) 1) = 0"
  "x (objs (fst near_after) 2) = 0" "y (objs (fst near_after) 2) = 0"
  "pointerID (objs (fst near_after) 2) = 0"
  by (simp_all add: scenario_defs near_after_def)

lemma two_contacts_positions:
  "map (\<lambda>c. (x (objs (fst two_contacts) c), y (objs (fst two_contacts) c),
              pointerID (objs (fst two_contacts) c))) (items (snd two_contacts)) =
     [(0, 0, 0), (10, 0, 1)]"
  by (simp add: scenario_defs del: getClosest_loop.simps(2))

lemma frame_both_move:
  "\<exists>H' A'. PointerArray_update two_contacts (touch_event [touch_at 1 0, touch_at 9 0])
       ''pointermove'' False rect0 = Inr (H', A', [(2, 0), (3, 1)]) \<and>
     items A' = [2, 3] \<and>
     map (\<lambda>c. (x (objs H' c), y (objs H' c), pointerID (objs H' c))) (items A') =
       [(1, 0, 0), (9, 0, 1)]"
  by (simp add: scenario_defs del: getClosest_loop.simps(2))

lemma frame_one_lifted:
  "\<exists>H' A'. PointerArray_update two_contacts (touch_event [touch_at 1 0])
       ''pointermove'' False rect0 = Inr (H', A', [(2, 0)]) \<and>
     items A' = [2] \<and> removed A' = [1]"
  by (simp add: scenario_defs del: getClosest_loop.simps(2))

lemma frame_one_new:
  "\<exists>H' A'. PointerArray_update two_contacts (touch_event [touch_at 10 0, touch_at 5 100])
       ''pointermove'' False rect0 = Inr (H', A', [(2, 1)]) \<and>
     items A' = [2, 3] \<and> removed A' = [0] \<and>
     map (\<lambda>c. pointerID (objs H' c)) (items A') = [1, 1]"
  by (simp add: scenario_defs del: getClosest_loop.simps(2))

lemma frame_mouse:
  "\<exists>H' A'. PointerArray_update initial (mouse_event 5) ''pointerdown'' False rect0 =
       Inr (H', A', []) \<and> items A' = [0]"
  by (simp add: scenario_defs del: getClosest_loop.simps(2))

lemma update_pairs_mutual:
  assumes wf: "wf_state (H, A)"
  shows "\<exists>H' A' ms. PointerArray_update (H, A) ev ty remove rect = Inr (H', A', ms) \<and>
         (\<forall>n1 c p n2. ms = n1 @ (c, p) # n2 \<longrightarrow>
            c \<in> set (items A') \<and> p \<in> set (items A) - snd ` set n1 \<and>
            (\<forall>q \<in> set (items A) - snd ` set n1. computed_dist (objs H') c p \<le> computed_dist (objs H') c q) \<and>
            getClosest (objs H') p (items A') = Some c \<and>
            (\<forall>d \<in> set (items A'). computed_dist (objs H') p c \<le> computed_dist (objs H') p d))"
proof (cases remove)
  case True
  then show ?thesis by (simp add: update_remove)
next
  case False
  from update_False_wf [OF wf, of ty ev rect] obtain H1 this pty P where
    P: "P = pairing (objs H1) this this (items A)"
    and upd: "PointerArray_update (H, A) ev ty False rect =
       Inr (H1\<lparr> objs := rebase_all (objs H1) P \<rparr>,
            A\<lparr> items := this, previous := [], removed := rev (consume_all (items A) P) \<rparr>, P)"
    by (elim exE conjE) (rule that; assumption)
  let ?h1 = "objs H1"
  let ?h' = "rebase_all ?h1 P"
  let ?H' = "H1\<lparr> objs := ?h' \<rparr>"
  let ?A' = "A\<lparr> items := this, previous := [], removed := rev (consume_all (items A) P) \<rparr>"
  from wf have dist: "distinct (items A)" by (simp add: wf_stateD)
  have pos: "\<forall>r. x (?h' r) = x (?h1 r) \<and> y (?h' r) = y (?h1 r)"
    by (simp add: rebase_all_pos)
  have eu: "computed_dist ?h' a b = computed_dist ?h1 a b" for a b
    by (rule computed_dist_pos [OF pos])
  have gc: "getClosest ?h' a ps = getClosest ?h1 a ps" for a ps
    by (rule getClosest_pos [OF pos])
  have m: "c \<in> set (items ?A') \<and> p \<in> set (items A) - snd ` set n1 \<and>
          (\<forall>q \<in> set (items A) - snd ` set n1. computed_dist (objs ?H') c p \<le> computed_dist (objs ?H') c q) \<and>
          getClosest (objs ?H') p (items ?A') = Some c \<and>
          (\<forall>d \<in> set (items ?A'). computed_dist (objs ?H') p c \<le> computed_dist (objs ?H') p d)"
    if dec: "P = n1 @ (c, p) # n2" for n1 c p n2
  proof -
    from dec P have pr: "pairing ?h1 this this (items A) = n1 @ (c, p) # n2" by simp
    note pm = pairing_mutual [OF dist pr]
    from pm have c: "c \<in> set this" by (rule conjunct1)
    from pm have p: "p \<in> set (items A) - snd ` set n1" by (elim conjE)
    from pm have g: "getClosest ?h1 p this = Some c" by (elim conjE)
    from pm have q: "\<forall>q \<in> set (items A) - snd ` set n1. computed_dist ?h1 c p \<le> computed_dist ?h1 c q"
      by (elim conjE)
    have r: "\<forall>d \<in> set this. computed_dist ?h1 p c \<le> computed_dist ?h1 p d"
      by (intro ballI) (rule getClosest_min [OF g])
    have 1: "c \<in> set (items ?A')" using c by simp
    have 2: "\<forall>q \<in> set (items A) - snd ` set n1. computed_dist (objs ?H') c p \<le> computed_dist (objs ?H') c q"
      using q by (simp add: eu)
    have 3: "getClosest (objs ?H') p (items ?A') = Some c" using g by (simp add: gc)
    have 4: "\<forall>d \<in> set (items ?A'). computed_dist (objs ?H') p c \<le> computed_dist (objs ?H') p d"
      using r by (simp add: eu)
    from 1 p 2 3 4 show ?thesis by (intro conjI)
  qed
  then have m': "\<forall>n1 c p n2. P = n1 @ (c, p) # n2 \<longrightarrow>
          c \<in> set (items ?A') \<and> p \<in> set (items A) - snd ` set n1 \<and>
          (\<forall>q \<in> set (items A) - snd ` set n1. computed_dist (objs ?H') c p \<le> computed_dist (objs ?H') c q) \<and>
          getClosest (objs ?H') p (items ?A') = Some c \<and>
          (\<forall>d \<in> set (items ?A'). computed_dist (objs ?H') p c \<le> computed_dist (objs ?H') p d)"
    by (intro allI impI)
  from upd False have upd': "PointerArray_update (H, A) ev ty remove rect = Inr (?H', ?A', P)"
    by (simp only: simp_thms)
  show ?thesis
    apply (rule exI [of _ ?H'])
    apply (rule exI [of _ ?A'])
    apply (rule exI [of _ P])
    apply (rule conjI)
     apply (rule upd')
    apply (rule m')
    done
qed

lemma example_pairing:
  "\<exists>H1 A1 H2 A2.
      PointerArray_update initial (touch_event [touch_at 0 0, touch_at 10 0])
        ''pointerdown'' False rect0 = Inr (H1, A1, []) \<and>
      map (\<lambda>c. (x (objs H1 c), y (objs H1 c), pointerID (objs H1 c))) (items A1) =
        [(0, 0, 0), (10, 0, 1)] \<and>
      PointerArray_update (H1, A1) (touch_event [touch_at 1 0, touch_at 9 0])
        ''pointermove'' False rect0 = Inr (H2, A2, [(2, 0), (3, 1)]) \<and>
      items A1 = [0, 1] \<and> items A2 = [2, 3] \<and>
      map (\<lambda>c. (x (objs H2 c), y (objs H2 c), pointerID (objs H2 c))) (items A2) =
        [(1, 0, 0), (9, 0, 1)]"
proof -
  from frame_both_move obtain H2 A2 where
    e: "PointerArray_update two_contacts (touch_event [touch_at 1 0, touch_at 9 0])
       ''pointermove'' False rect0 = Inr (H2, A2, [(2, 0), (3, 1)])"
    and i: "items A2 = [2, 3]"
    and m: "map (\<lambda>c. (x (objs H2 c), y (objs H2 c), pointerID (objs H2 c))) (items A2) =
       [(1, 0, 0), (9, 0, 1)]"
    by (elim exE conjE)
  from e have e': "PointerArray_update (fst two_contacts, snd two_contacts)
       (touch_event [touch_at 1 0, touch_at 9 0]) ''pointermove'' False rect0 =
       Inr (H2, A2, [(2, 0), (3, 1)])"
    by simp
  have i1: "items (snd two_contacts) = [0, 1]" by (simp add: two_contacts_def)
  show ?thesis
    apply (rule exI [of _ "fst two_contacts"])
    apply (rule exI [of _ "snd two_contacts"])
    apply (rule exI [of _ H2])
    apply (rule exI [of _ A2])
    apply (intro conjI)
         apply (rule two_contacts_frame)
        apply (rule two_contacts_positions)
       apply (rule e')
      apply (rule i1)
     apply (rule i)
    apply (rule m)
    done
qed

text \<open>
  Whatever the state before, the state after a call of \<open>update\<close> holds distinct
  allocated contacts; so does the state of a new contact set.
\<close>

lemma wf_state_update:
  assumes "PointerArray_update (H, A) ev ty remove rect = Inr (H', A', ms)"
  shows "wf_state (H', A')"
proof (cases remove)
  case True
  with assms have "items A' = []" by (auto simp: update_remove)
  then show ?thesis by (simp add: wf_state_def)
next
  case False
  from update_False [of H A ty ev rect] obtain H1 this pty where
    items_eq: "this = [fresh H ..< fresh H1]"
    and upd: "PointerArray_update (H, A) ev ty False rect =
       Inr (H1\<lparr> objs := rebase_all (objs H1) (pairing (objs H1) this this (items A)) \<rparr>,
            A\<lparr> items := this, previous := [],
               removed := rev (consume_all (items A) (pairing (objs H1) this this (items A))) \<rparr>,
            pairing (objs H1) this this (items A))"
    by (elim exE conjE) (rule that; assumption)
  from upd assms False have "fresh H' = fresh H1" and "items A' = this" by auto
  with items_eq show ?thesis by (simp add: wf_state_def list_all_iff)
qed

section \<open>The claims about the contact set\<close>

text \<open>
  Claim C7. After any call of \<open>update\<close>, every contact of the current collection has
  the \<open>button\<close> that the partition of the specification gives for the bitmask
  \<open>event.buttons || 0\<close>: 1, 3, 5, 7 give primary (1); 2, 6 give secondary (2); 4
  gives auxiliary (3); every other value, 0 included, gives none (-1, the value the
  constructor sets). Its \<open>buttons\<close> is the bitmask itself.
\<close>

theorem button_ordinal_partition:
  "\<exists>H' A' ms. PointerArray_update (H, A) ev ty remove rect = Inr (H', A', ms) \<and>
     (\<forall>c \<in> set (items A').
        button (objs H' c) = button_code (ordinal_of_bitmask (buttons_of ev)) \<and>
        buttons (objs H' c) = buttons_of ev)"
proof (cases remove)
  case True
  then show ?thesis by (simp add: update_remove)
next
  case False
  from update_False [of H A ty ev rect] obtain H1 this pty where
    items_eq: "this = [fresh H ..< fresh H1]"
    and new: "\<forall>r. fresh H \<le> r \<and> r < fresh H1 \<longrightarrow>
        (\<exists>t k. objs H1 r = sample_pointer (pa_target A) ty pty (buttons_of ev) ev rect k t)"
    and upd: "PointerArray_update (H, A) ev ty False rect =
       Inr (H1\<lparr> objs := rebase_all (objs H1) (pairing (objs H1) this this (items A)) \<rparr>,
            A\<lparr> items := this, previous := [],
               removed := rev (consume_all (items A) (pairing (objs H1) this this (items A))) \<rparr>,
            pairing (objs H1) this this (items A))"
    by blast
  let ?P = "pairing (objs H1) this this (items A)"
  have "button (rebase_all (objs H1) ?P c) = button_code (ordinal_of_bitmask (buttons_of ev)) \<and>
        buttons (rebase_all (objs H1) ?P c) = buttons_of ev" if "c \<in> set this" for c
  proof -
    from that items_eq have "fresh H \<le> c \<and> c < fresh H1" by simp
    with new obtain t k where
      "objs H1 c = sample_pointer (pa_target A) ty pty (buttons_of ev) ev rect k t" by blast
    then show ?thesis by (simp add: rebase_all_button sample_pointer_button)
  qed
  with upd False show ?thesis by simp
qed

theorem button_ordinal_partition_witness:
  "\<exists>H' A' ms. PointerArray_update initial (mouse_event 5) ''pointerdown'' False rect0 =
       Inr (H', A', ms) \<and>
     items A' = [0] \<and> button (objs H' 0) = 1 \<and> buttons (objs H' 0) = 5"
proof -
  from button_ordinal_partition [of "fst initial" "snd initial" "mouse_event 5" "''pointerdown''" False rect0]
  obtain H' A' ms where
    u: "PointerArray_update initial (mouse_event 5) ''pointerdown'' False rect0 = Inr (H', A', ms)"
    and q: "\<forall>c \<in> set (items A').
        button (objs H' c) = button_code (ordinal_of_bitmask (buttons_of (mouse_event 5))) \<and>
        buttons (objs H' c) = buttons_of (mouse_event 5)"
    by (simp only: prod.collapse) (elim exE conjE, rule that)
  from frame_mouse obtain H2 A2 where
    e: "PointerArray_update initial (mouse_event 5) ''pointerdown'' False rect0 = Inr (H2, A2, [])"
    and i: "items A2 = [0]"
    by (elim exE conjE)
  from u e have "A' = A2" by simp
  with i have i': "items A' = [0]" by simp
  with q have "button (objs H' 0) = button_code (ordinal_of_bitmask (buttons_of (mouse_event 5))) \<and>
        buttons (objs H' 0) = buttons_of (mouse_event 5)"
    by simp
  then have "button (objs H' 0) = 1 \<and> buttons (objs H' 0) = 5"
    by (simp add: buttons_of_def mouse_event_def ordinal_of_bitmask_def)
  with u i' show ?thesis by blast
qed

text \<open>
  Claim C3. In a state whose contacts are distinct allocated objects, every call of
  \<open>update\<close> returns, and afterwards \<open>previous\<close> is empty, the contacts in
  \<open>removed\<close> are exactly the contacts of the array before the call that no call
  \<open>this[i].update(closest)\<close> of this frame took as \<open>closest\<close>, and no contact is in
  both the array and \<open>removed\<close>.
\<close>

theorem removed_exactly_unmatched:
  assumes wf: "wf_state (H, A)"
  shows "\<exists>H' A' ms. PointerArray_update (H, A) ev ty remove rect = Inr (H', A', ms) \<and>
     previous A' = [] \<and>
     set (removed A') = set (items A) - snd ` set ms \<and>
     set (items A') \<inter> set (removed A') = {}"
proof (cases remove)
  case True
  then show ?thesis by (simp add: update_remove)
next
  case False
  from update_False_wf [OF wf, of ty ev rect] obtain H1 this pty P where
    upd: "PointerArray_update (H, A) ev ty False rect =
       Inr (H1\<lparr> objs := rebase_all (objs H1) P \<rparr>,
            A\<lparr> items := this, previous := [], removed := rev (consume_all (items A) P) \<rparr>, P)"
    and disj: "set this \<inter> set (items A) = {}"
    by (elim exE conjE) (rule that; assumption)
  let ?H' = "H1\<lparr> objs := rebase_all (objs H1) P \<rparr>"
  let ?A' = "A\<lparr> items := this, previous := [], removed := rev (consume_all (items A) P) \<rparr>"
  from wf have "distinct (items A)" by (simp add: wf_stateD)
  then have rem: "set (consume_all (items A) P) = set (items A) - snd ` set P"
    by (simp add: consume_all_set)
  have 1: "previous ?A' = []" by simp
  have 2: "set (removed ?A') = set (items A) - snd ` set P" using rem by simp
  have 3: "set (items ?A') \<inter> set (removed ?A') = {}" using rem disj by auto
  from upd False have upd': "PointerArray_update (H, A) ev ty remove rect =
       Inr (H1\<lparr> objs := rebase_all (objs H1) P \<rparr>,
            A\<lparr> items := this, previous := [], removed := rev (consume_all (items A) P) \<rparr>, P)"
    by (simp only: simp_thms)
  show ?thesis
    apply (rule exI [of _ ?H'])
    apply (rule exI [of _ ?A'])
    apply (rule exI [of _ P])
    apply (intro conjI)
       apply (rule upd')
      apply (rule 1)
     apply (rule 2)
    apply (rule 3)
    done
qed

theorem removed_exactly_unmatched_witness:
  "wf_state two_contacts \<and>
   (\<exists>H' A' ms. PointerArray_update two_contacts (touch_event [touch_at 1 0])
       ''pointermove'' False rect0 = Inr (H', A', ms) \<and>
     ms = [(2, 0)] \<and> items A' = [2] \<and> previous A' = [] \<and> set (removed A') = {1})"
proof -
  have wf: "wf_state (fst two_contacts, snd two_contacts)"
    using wf_two_contacts by simp
  have "\<exists>H' A' ms. PointerArray_update two_contacts (touch_event [touch_at 1 0])
       ''pointermove'' False rect0 = Inr (H', A', ms) \<and>
     previous A' = [] \<and>
     set (removed A') = set (items (snd two_contacts)) - snd ` set ms \<and>
     set (items A') \<inter> set (removed A') = {}"
    using removed_exactly_unmatched [OF wf, of "touch_event [touch_at 1 0]" "''pointermove''" False rect0]
    by simp
  then obtain H' A' ms where
    u: "PointerArray_update two_contacts (touch_event [touch_at 1 0])
       ''pointermove'' False rect0 = Inr (H', A', ms)"
    and p: "previous A' = []"
    and r: "set (removed A') = set (items (snd two_contacts)) - snd ` set ms"
    by (elim exE conjE) (rule that)
  from frame_one_lifted obtain H2 A2 where
    e: "PointerArray_update two_contacts (touch_event [touch_at 1 0])
       ''pointermove'' False rect0 = Inr (H2, A2, [(2, 0)])"
    and i: "items A2 = [2]"
    by (elim exE conjE)
  from u e have eq: "A' = A2" "ms = [(2, 0)]" by simp_all
  with i have i': "items A' = [2]" by simp
  from r eq have "set (removed A') = {1}"
    by (auto simp: two_contacts_def)
  with u p eq i' wf_two_contacts show ?thesis by blast
qed

text \<open>
  Claim C4. In a state whose contacts are distinct allocated objects, every call of
  \<open>update\<close> returns, and afterwards: for every call \<open>c.update(p)\<close> the frame made,
  the predecessor \<open>p\<close> is unchanged, \<open>c\<close> has the identity and the start of
  \<open>p\<close>, its movement is its position minus the position of \<open>p\<close>, and its distance
  is its position minus its start, with the minus of the code (\<open>fsub\<close>, the
  subtraction of doubles); every other contact of the array has movement and distance
  zero and its start at its position.
\<close>

theorem kinematics_after_update:
  assumes wf: "wf_state (H, A)"
  shows "\<exists>H' A' ms. PointerArray_update (H, A) ev ty remove rect = Inr (H', A', ms) \<and>
     fst ` set ms \<subseteq> set (items A') \<and>
     (\<forall>c p. (c, p) \<in> set ms \<longrightarrow>
        objs H' p = objs H p \<and>
        pointerID (objs H' c) = pointerID (objs H p) \<and>
        movementX (objs H' c) = fsub (x (objs H' c)) (x (objs H p)) \<and>
        movementY (objs H' c) = fsub (y (objs H' c)) (y (objs H p)) \<and>
        startX (objs H' c) = startX (objs H p) \<and>
        startY (objs H' c) = startY (objs H p) \<and>
        distanceX (objs H' c) = fsub (x (objs H' c)) (startX (objs H' c)) \<and>
        distanceY (objs H' c) = fsub (y (objs H' c)) (startY (objs H' c))) \<and>
     (\<forall>c \<in> set (items A') - fst ` set ms.
        movementX (objs H' c) = 0 \<and> movementY (objs H' c) = 0 \<and>
        distanceX (objs H' c) = 0 \<and> distanceY (objs H' c) = 0 \<and>
        startX (objs H' c) = x (objs H' c) \<and> startY (objs H' c) = y (objs H' c))"
proof (cases remove)
  case True
  then show ?thesis by (simp add: update_remove)
next
  case False
  from update_False_wf [OF wf, of ty ev rect] obtain H1 this pty P where
    items_eq: "this = [fresh H ..< fresh H1]"
    and old: "\<forall>r < fresh H. objs H1 r = objs H r"
    and new: "\<forall>r. fresh H \<le> r \<and> r < fresh H1 \<longrightarrow>
        (\<exists>t k. objs H1 r = sample_pointer (pa_target A) ty pty (buttons_of ev) ev rect k t)"
    and upd: "PointerArray_update (H, A) ev ty False rect =
       Inr (H1\<lparr> objs := rebase_all (objs H1) P \<rparr>,
            A\<lparr> items := this, previous := [], removed := rev (consume_all (items A) P) \<rparr>, P)"
    and f: "fst ` set P \<subseteq> set this" and s: "snd ` set P \<subseteq> set (items A)"
    and d: "distinct (map fst P)" and disj': "snd ` set P \<inter> fst ` set P = {}"
    by (elim exE conjE) (rule that; assumption)
  let ?h1 = "objs H1"
  let ?h' = "rebase_all ?h1 P"
  let ?H' = "H1\<lparr> objs := ?h' \<rparr>"
  let ?A' = "A\<lparr> items := this, previous := [], removed := rev (consume_all (items A) P) \<rparr>"
  from wf have below: "\<forall>r \<in> set (items A). r < fresh H" by (simp add: wf_stateD)
  have 1: "fst ` set ms \<subseteq> set (items ?A')" if "ms = P" for ms using f that by simp
  have 2: "objs ?H' p = objs H p \<and>
        pointerID (objs ?H' c) = pointerID (objs H p) \<and>
        movementX (objs ?H' c) = fsub (x (objs ?H' c)) (x (objs H p)) \<and>
        movementY (objs ?H' c) = fsub (y (objs ?H' c)) (y (objs H p)) \<and>
        startX (objs ?H' c) = startX (objs H p) \<and>
        startY (objs ?H' c) = startY (objs H p) \<and>
        distanceX (objs ?H' c) = fsub (x (objs ?H' c)) (startX (objs ?H' c)) \<and>
        distanceY (objs ?H' c) = fsub (y (objs ?H' c)) (startY (objs ?H' c))" if cp: "(c, p) \<in> set P" for c p
  proof -
    from cp have "p \<in> snd ` set P" by force
    with disj' s below have pn: "p \<notin> fst ` set P" and pl: "p < fresh H" by auto
    have hp: "?h' p = objs H p"
      using rebase_all_other [OF pn, of ?h1] old pl by simp
    have hc: "?h' c = Pointer_update (?h1 c) (?h1 p)"
      using d cp disj' by (rule rebase_all_matched)
    have h1p: "?h1 p = objs H p" using old pl by simp
    show ?thesis using hp by (simp add: hc h1p Pointer_update_fields)
  qed
  have 3: "movementX (objs ?H' c) = 0 \<and> movementY (objs ?H' c) = 0 \<and>
        distanceX (objs ?H' c) = 0 \<and> distanceY (objs ?H' c) = 0 \<and>
        startX (objs ?H' c) = x (objs ?H' c) \<and> startY (objs ?H' c) = y (objs ?H' c)"
    if c: "c \<in> set (items ?A') - fst ` set P" for c
  proof -
    from c have cn: "c \<notin> fst ` set P" and "c \<in> set this" by simp_all
    with items_eq have "fresh H \<le> c \<and> c < fresh H1" by simp
    with new obtain t k where
      sp: "?h1 c = sample_pointer (pa_target A) ty pty (buttons_of ev) ev rect k t" by blast
    have "?h' c = ?h1 c" using cn by (rule rebase_all_other)
    then show ?thesis using sample_pointer_kinematics [of "pa_target A" ty pty "buttons_of ev" ev rect k t]
      by (simp add: sp)
  qed
  from upd False have upd': "PointerArray_update (H, A) ev ty remove rect =
       Inr (H1\<lparr> objs := rebase_all (objs H1) P \<rparr>,
            A\<lparr> items := this, previous := [], removed := rev (consume_all (items A) P) \<rparr>, P)"
    by (simp only: simp_thms)
  have a1: "fst ` set P \<subseteq> set (items ?A')" by (rule 1) (rule refl)
  have a2: "\<forall>c p. (c, p) \<in> set P \<longrightarrow>
        objs ?H' p = objs H p \<and>
        pointerID (objs ?H' c) = pointerID (objs H p) \<and>
        movementX (objs ?H' c) = fsub (x (objs ?H' c)) (x (objs H p)) \<and>
        movementY (objs ?H' c) = fsub (y (objs ?H' c)) (y (objs H p)) \<and>
        startX (objs ?H' c) = startX (objs H p) \<and>
        startY (objs ?H' c) = startY (objs H p) \<and>
        distanceX (objs ?H' c) = fsub (x (objs ?H' c)) (startX (objs ?H' c)) \<and>
        distanceY (objs ?H' c) = fsub (y (objs ?H' c)) (startY (objs ?H' c))"
    by (intro allI impI) (rule 2)
  have a3: "\<forall>c \<in> set (items ?A') - fst ` set P.
        movementX (objs ?H' c) = 0 \<and> movementY (objs ?H' c) = 0 \<and>
        distanceX (objs ?H' c) = 0 \<and> distanceY (objs ?H' c) = 0 \<and>
        startX (objs ?H' c) = x (objs ?H' c) \<and> startY (objs ?H' c) = y (objs ?H' c)"
    by (intro ballI) (rule 3)
  show ?thesis
    apply (rule exI [of _ ?H'])
    apply (rule exI [of _ ?A'])
    apply (rule exI [of _ P])
    apply (intro conjI)
       apply (rule upd')
      apply (rule a1)
     apply (rule a2)
    apply (rule a3)
    done
qed

theorem kinematics_after_update_witness:
  "wf_state two_contacts \<and>
   (\<exists>H' A' ms. PointerArray_update two_contacts (touch_event [touch_at 1 0, touch_at 9 0])
       ''pointermove'' False rect0 = Inr (H', A', ms) \<and>
     ms = [(2, 0), (3, 1)] \<and>
     x (objs H' 3) = 9 \<and> movementX (objs H' 3) = - 1 \<and> distanceX (objs H' 3) = - 1 \<and>
     startX (objs H' 3) = 10 \<and> pointerID (objs H' 3) = 1)"
proof -
  have wf: "wf_state (fst two_contacts, snd two_contacts)"
    using wf_two_contacts by simp
  note kinematics_after_update
    [OF wf, of "touch_event [touch_at 1 0, touch_at 9 0]" "''pointermove''" False rect0]
  then obtain H' A' ms where
    u0: "PointerArray_update (fst two_contacts, snd two_contacts)
       (touch_event [touch_at 1 0, touch_at 9 0]) ''pointermove'' False rect0 = Inr (H', A', ms)"
    and k: "\<forall>c p. (c, p) \<in> set ms \<longrightarrow>
        objs H' p = objs (fst two_contacts) p \<and>
        pointerID (objs H' c) = pointerID (objs (fst two_contacts) p) \<and>
        movementX (objs H' c) = fsub (x (objs H' c)) (x (objs (fst two_contacts) p)) \<and>
        movementY (objs H' c) = fsub (y (objs H' c)) (y (objs (fst two_contacts) p)) \<and>
        startX (objs H' c) = startX (objs (fst two_contacts) p) \<and>
        startY (objs H' c) = startY (objs (fst two_contacts) p) \<and>
        distanceX (objs H' c) = fsub (x (objs H' c)) (startX (objs H' c)) \<and>
        distanceY (objs H' c) = fsub (y (objs H' c)) (startY (objs H' c))"
    by (elim exE conjE) (rule that)
  from u0 have u: "PointerArray_update two_contacts (touch_event [touch_at 1 0, touch_at 9 0])
       ''pointermove'' False rect0 = Inr (H', A', ms)"
    by simp
  from frame_both_move obtain H2 A2 where
    e: "PointerArray_update two_contacts (touch_event [touch_at 1 0, touch_at 9 0])
       ''pointermove'' False rect0 = Inr (H2, A2, [(2, 0), (3, 1)])"
    and i: "items A2 = [2, 3]"
    and m: "map (\<lambda>c. (x (objs H2 c), y (objs H2 c), pointerID (objs H2 c))) (items A2) =
       [(1, 0, 0), (9, 0, 1)]"
    by (elim exE conjE)
  from u e have eq: "H' = H2" "ms = [(2, 0), (3, 1)]" by simp_all
  from m i eq have pos: "x (objs H' 3) = 9" by simp
  from eq have "(3, 1) \<in> set ms" by simp
  with k have
    "pointerID (objs H' 3) = pointerID (objs (fst two_contacts) 1) \<and>
     movementX (objs H' 3) = fsub (x (objs H' 3)) (x (objs (fst two_contacts) 1)) \<and>
     startX (objs H' 3) = startX (objs (fst two_contacts) 1) \<and>
     distanceX (objs H' 3) = fsub (x (objs H' 3)) (startX (objs H' 3))"
    by blast
  with pos have "movementX (objs H' 3) = - 1 \<and> distanceX (objs H' 3) = - 1 \<and>
     startX (objs H' 3) = 10 \<and> pointerID (objs H' 3) = 1"
    by (simp add: two_contacts_def sample_pointer_def Pointer_new_def touch_at_def rect0_def
        Let_def fsub_def)
  with u eq pos wf_two_contacts show ?thesis by blast
qed

text \<open>
  Claim C1, as the code has it. The code compares the distances it computes, in double
  arithmetic, and not the Euclidean distances; the nearest previous contact by the
  computed distance need not be the nearest by the Euclidean distance.

  With the previous contacts 0 at \<open>(4, 3 + 2 ^ -51)\<close> and 1 at (5,0) and one new
  sample at (0,0), the computed distance is 5 for both previous contacts, the first is
  kept, and the pair of the new contact 2 with the contact 0 is accepted, with the
  identity 0, although the contact 1, which no pair has taken, is strictly nearer to the
  new contact in Euclidean distance.
\<close>

theorem accepted_pair_not_nearest:
  "PointerArray_update initial (touch_event [touch_at 4 next_above_3, touch_at 5 0])
     ''pointerdown'' False rect0 = Inr (fst near_contacts, snd near_contacts, []) \<and>
   items (snd near_contacts) = [0, 1] \<and>
   PointerArray_update near_contacts (touch_event [touch_at 0 0])
     ''pointermove'' False rect0 = Inr (fst near_after, snd near_after, [(2, 0)]) \<and>
   pointerID (objs (fst near_after) 2) = 0 \<and>
   computed_dist (objs (fst near_after)) 2 0 = computed_dist (objs (fst near_after)) 2 1 \<and>
   euclid (objs (fst near_after)) 2 1 < euclid (objs (fst near_after)) 2 0"
proof -
  note pos = near_after_positions
  have i1: "items (snd near_contacts) = [0, 1]" by (simp add: near_contacts_def)
  have c: "computed_dist (objs (fst near_after)) 2 0 = computed_dist (objs (fst near_after)) 2 1"
    unfolding computed_dist_def pos d_0_0__4_c d_0_0__5_0 by (rule refl)
  have "(x (objs (fst near_after) 2) - x (objs (fst near_after) 1))\<^sup>2 +
        (y (objs (fst near_after) 2) - y (objs (fst near_after) 1))\<^sup>2 <
      (x (objs (fst near_after) 2) - x (objs (fst near_after) 0))\<^sup>2 +
        (y (objs (fst near_after) 2) - y (objs (fst near_after) 0))\<^sup>2"
    unfolding pos by (simp add: power2_eq_square)
  then have u: "euclid (objs (fst near_after)) 2 1 < euclid (objs (fst near_after)) 2 0"
    unfolding euclid_def by (rule real_sqrt_less_mono)
  show ?thesis
    apply (intro conjI)
         apply (rule near_contacts_frame)
        apply (rule i1)
       apply (rule frame_near)
      apply (rule pos(7))
     apply (rule c)
    apply (rule u)
    done
qed

text \<open>
  Claim C1, amended: nearest means nearest by the distance the code computes,
  \<open>Math.sqrt(dx * dx + dy * dy)\<close> in double arithmetic. In a state whose contacts are
  distinct allocated objects, every call of \<open>update\<close> returns, and every pair
  \<open>(c, p)\<close> it accepts (a call \<open>c.update(p)\<close>) is mutually nearest: \<open>p\<close> is a
  contact of the previous frame that no earlier pair of this frame has taken, no such
  contact has a smaller computed distance to \<open>c\<close> than \<open>p\<close>, \<open>getClosest\<close> over all
  contacts of this frame answers \<open>c\<close> for \<open>p\<close>, and no contact of this frame has a
  smaller computed distance to \<open>p\<close> than \<open>c\<close>. In the example of the specification,
  with the contacts 0 at (0,0) and 1 at (10,0) and then samples at (1,0) and (9,0), the
  contact 2 at (1,0) is paired with 0 and the contact 3 at (9,0) with 1, and they keep
  the identities 0 and 1.
\<close>

theorem accepted_pairs_mutually_nearest:
  "(wf_state (H, A) \<longrightarrow>
      (\<exists>H' A' ms. PointerArray_update (H, A) ev ty remove rect = Inr (H', A', ms) \<and>
         (\<forall>n1 c p n2. ms = n1 @ (c, p) # n2 \<longrightarrow>
            c \<in> set (items A') \<and> p \<in> set (items A) - snd ` set n1 \<and>
            (\<forall>q \<in> set (items A) - snd ` set n1. computed_dist (objs H') c p \<le> computed_dist (objs H') c q) \<and>
            getClosest (objs H') p (items A') = Some c \<and>
            (\<forall>d \<in> set (items A'). computed_dist (objs H') p c \<le> computed_dist (objs H') p d)))) \<and>
   (\<exists>H1 A1 H2 A2.
      PointerArray_update initial (touch_event [touch_at 0 0, touch_at 10 0])
        ''pointerdown'' False rect0 = Inr (H1, A1, []) \<and>
      map (\<lambda>c. (x (objs H1 c), y (objs H1 c), pointerID (objs H1 c))) (items A1) =
        [(0, 0, 0), (10, 0, 1)] \<and>
      PointerArray_update (H1, A1) (touch_event [touch_at 1 0, touch_at 9 0])
        ''pointermove'' False rect0 = Inr (H2, A2, [(2, 0), (3, 1)]) \<and>
      items A1 = [0, 1] \<and> items A2 = [2, 3] \<and>
      map (\<lambda>c. (x (objs H2 c), y (objs H2 c), pointerID (objs H2 c))) (items A2) =
        [(1, 0, 0), (9, 0, 1)])"
  by (rule conjI, rule impI, erule update_pairs_mutual, rule example_pairing)

theorem accepted_pairs_mutually_nearest_witness:
  "wf_state two_contacts \<and>
   (\<exists>H' A' ms. PointerArray_update two_contacts (touch_event [touch_at 1 0, touch_at 9 0])
       ''pointermove'' False rect0 = Inr (H', A', ms) \<and>
     ms = [(2, 0), (3, 1)] \<and> items A' = [2, 3] \<and>
     computed_dist (objs H') 2 0 \<le> computed_dist (objs H') 2 1 \<and>
     computed_dist (objs H') 0 2 \<le> computed_dist (objs H') 0 3 \<and>
     getClosest (objs H') 1 (items A') = Some 3)"
proof -
  have wf: "wf_state (fst two_contacts, snd two_contacts)"
    using wf_two_contacts by simp
  note accepted_pairs_mutually_nearest
    [of "fst two_contacts" "snd two_contacts" "touch_event [touch_at 1 0, touch_at 9 0]"
        "''pointermove''" False rect0, THEN conjunct1, rule_format, OF wf]
  then obtain H' A' ms where
    u0: "PointerArray_update (fst two_contacts, snd two_contacts)
       (touch_event [touch_at 1 0, touch_at 9 0]) ''pointermove'' False rect0 = Inr (H', A', ms)"
    and k: "\<forall>n1 c p n2. ms = n1 @ (c, p) # n2 \<longrightarrow>
            c \<in> set (items A') \<and> p \<in> set (items (snd two_contacts)) - snd ` set n1 \<and>
            (\<forall>q \<in> set (items (snd two_contacts)) - snd ` set n1.
                computed_dist (objs H') c p \<le> computed_dist (objs H') c q) \<and>
            getClosest (objs H') p (items A') = Some c \<and>
            (\<forall>d \<in> set (items A'). computed_dist (objs H') p c \<le> computed_dist (objs H') p d)"
    by (elim exE conjE) (rule that)
  from u0 have u: "PointerArray_update two_contacts (touch_event [touch_at 1 0, touch_at 9 0])
       ''pointermove'' False rect0 = Inr (H', A', ms)"
    by simp
  from frame_both_move obtain H2 A2 where
    e: "PointerArray_update two_contacts (touch_event [touch_at 1 0, touch_at 9 0])
       ''pointermove'' False rect0 = Inr (H2, A2, [(2, 0), (3, 1)])"
    and i: "items A2 = [2, 3]"
    by (elim exE conjE)
  from u e have eq: "A' = A2" "ms = [(2, 0), (3, 1)]" by simp_all
  with i have i': "items A' = [2, 3]" by simp
  have i1: "items (snd two_contacts) = [0, 1]" by (simp add: two_contacts_def)
  from eq have d1: "ms = [] @ (2, 0) # [(3, 1)]" and d2: "ms = [(2, 0)] @ (3, 1) # []"
    by simp_all
  note k1 = k [rule_format, OF d1]
  note k2 = k [rule_format, OF d2]
  from k1 i1 have a: "computed_dist (objs H') 2 0 \<le> computed_dist (objs H') 2 1" by simp
  from k1 i' have b: "computed_dist (objs H') 0 2 \<le> computed_dist (objs H') 0 3" by simp
  from k2 have g: "getClosest (objs H') 1 (items A') = Some 3" by simp
  show ?thesis
    apply (rule conjI)
     apply (rule wf_two_contacts)
    apply (rule exI [of _ H'])
    apply (rule exI [of _ A'])
    apply (rule exI [of _ ms])
    apply (intro conjI)
         apply (rule u)
        apply (rule eq(2))
       apply (rule i')
      apply (rule a)
     apply (rule b)
    apply (rule g)
    done
qed

text \<open>
  Claim C6. A call of \<open>update\<close> with the remove flag set captures no sample: it
  returns, the store is unchanged (no contact is created), the array is empty, no match
  is made, and \<open>removed\<close> holds every contact the array had before the call.
\<close>

theorem remove_flag_skips_capture:
  "\<exists>H' A' ms. PointerArray_update (H, A) ev ty True rect = Inr (H', A', ms) \<and>
     H' = H \<and> items A' = [] \<and> ms = [] \<and> previous A' = [] \<and>
     removed A' = rev (items A) \<and> set (removed A') = set (items A)"
  by (simp add: update_remove)

theorem remove_flag_skips_capture_witness:
  "\<exists>H' A' ms. PointerArray_update two_contacts (mouse_event 0) ''pointerup'' True rect0 =
       Inr (H', A', ms) \<and>
     H' = fst two_contacts \<and> items A' = [] \<and> removed A' = [1, 0]"
proof -
  from remove_flag_skips_capture
    [of "fst two_contacts" "snd two_contacts" "mouse_event 0" "''pointerup''" rect0]
  obtain H' A' ms where
    u0: "PointerArray_update (fst two_contacts, snd two_contacts) (mouse_event 0) ''pointerup'' True rect0 =
       Inr (H', A', ms)"
    and h: "H' = fst two_contacts" and i: "items A' = []"
    and r: "removed A' = rev (items (snd two_contacts))"
    by (elim exE conjE) (rule that)
  from u0 have u: "PointerArray_update two_contacts (mouse_event 0) ''pointerup'' True rect0 =
       Inr (H', A', ms)"
    by simp
  from r have "removed A' = [1, 0]" by (simp add: two_contacts_def)
  with u h i show ?thesis by blast
qed

text \<open>
  Claim C2 (the code differs). Two touches, at (0,0) and (10,0), get the identities 0
  and 1. In the next frame the first touch is gone, the second has not moved and a new
  touch is at (5,100). The contact at (10,0) is matched and takes the identity 1 of its
  predecessor; the new contact is second in the list, is not matched, and keeps its
  provisional identity, which is 1 too. The current collection then holds two contacts
  with the identity 1.
\<close>

theorem duplicate_pointerID:
  "\<exists>H1 A1 H2 A2 ms.
     PointerArray_update initial (touch_event [touch_at 0 0, touch_at 10 0])
       ''pointerdown'' False rect0 = Inr (H1, A1, []) \<and>
     map (\<lambda>c. pointerID (objs H1 c)) (items A1) = [0, 1] \<and>
     PointerArray_update (H1, A1) (touch_event [touch_at 10 0, touch_at 5 100])
       ''pointermove'' False rect0 = Inr (H2, A2, ms) \<and>
     map (\<lambda>c. pointerID (objs H2 c)) (items A2) = [1, 1] \<and>
     \<not> distinct (map (\<lambda>c. pointerID (objs H2 c)) (items A2))"
proof -
  from frame_one_new obtain H2 A2 where
    e: "PointerArray_update two_contacts (touch_event [touch_at 10 0, touch_at 5 100])
       ''pointermove'' False rect0 = Inr (H2, A2, [(2, 1)])"
    and m: "map (\<lambda>c. pointerID (objs H2 c)) (items A2) = [1, 1]"
    by (elim exE conjE)
  from e have e': "PointerArray_update (fst two_contacts, snd two_contacts)
       (touch_event [touch_at 10 0, touch_at 5 100]) ''pointermove'' False rect0 =
       Inr (H2, A2, [(2, 1)])"
    by simp
  have ids: "map (\<lambda>c. pointerID (objs (fst two_contacts) c)) (items (snd two_contacts)) = [0, 1]"
    by (simp add: two_contacts_def sample_pointer_def Pointer_new_def Let_def)
  from m have nd: "\<not> distinct (map (\<lambda>c. pointerID (objs H2 c)) (items A2))" by simp
  show ?thesis
    apply (rule exI [of _ "fst two_contacts"])
    apply (rule exI [of _ "snd two_contacts"])
    apply (rule exI [of _ H2])
    apply (rule exI [of _ A2])
    apply (rule exI [of _ "[(2, 1)]"])
    apply (intro conjI)
        apply (rule two_contacts_frame)
       apply (rule ids)
      apply (rule e')
     apply (rule m)
    apply (rule nd)
    done
qed

section \<open>The claims about \<open>getClosest\<close>\<close>




section \<open>The claims about a single contact\<close>

text \<open>
  Claim C5 (the code differs). \<open>clone\<close> assigns \<open>pointer.movementXY = this.movementXY\<close>
  where \<open>movementY\<close> is meant, so the copy keeps the \<open>movementY\<close> of the constructor,
  which is 0: for a contact that has moved down by 3 the copy has \<open>movementY\<close> 0. The
  other fields the constructor sets are copied.
\<close>

theorem clone_loses_movementY:
  "movementY moved_contact = 3 \<and> movementY (clone moved_contact) = 0 \<and>
   movementX (clone moved_contact) = movementX moved_contact \<and>
   distanceY (clone moved_contact) = distanceY moved_contact \<and>
   clone moved_contact \<noteq> moved_contact"
proof -
  have "movementY moved_contact = 3 \<and> movementY (clone moved_contact) = 0 \<and>
   movementX (clone moved_contact) = movementX moved_contact \<and>
   distanceY (clone moved_contact) = distanceY moved_contact"
    by (simp add: moved_contact_def clone_def Pointer_new_def)
  moreover from this have "clone moved_contact \<noteq> moved_contact"
    by (metis zero_neq_numeral)
  ultimately show ?thesis by simp
qed

end
